theory Spec2Isabelle
  imports Complex_Main "HOL-Library.Char_ord" "HOL-Library.List_Lexorder"
begin

section \<open>Data model\<close>

text \<open>
  JavaScript numbers are modelled as reals (coordinates, sizes, layers); a value that may be
  \<^verbatim>\<open>undefined\<close> at run time is an option. Strings are compared the way the default
  \<^verbatim>\<open>Array.prototype.sort\<close> compares them: lexicographically on character codes.
\<close>

record xy =
  x :: real
  y :: real

record xyz = xy +
  z :: "real option"

text \<open>The fields of a \<^verbatim>\<open>CapacityMeshNode\<close> that the two solvers read.\<close>

record CapacityMeshNode =
  capacityMeshNodeId :: string
  center :: xy
  width :: real
  height :: real

text \<open>Two kinds of object carry a \<^verbatim>\<open>connectionName\<close>: the assigned points of a
  segment and the terminals of a section. They share the field.\<close>

record Named =
  connectionName :: string

record AssignedPoint = Named +
  point :: xyz

text \<open>
  \<^verbatim>\<open>SegmentWithAssignedPoints\<close>: a \<^verbatim>\<open>NodePortSegment\<close> with the optional
  \<^verbatim>\<open>assignedPoints\<close> property. \<open>ownerNodeId\<close> is the segment's
  \<^verbatim>\<open>capacityMeshNodeId\<close> and \<open>end'\<close> its \<^verbatim>\<open>end\<close>.
\<close>

record Segment =
  ownerNodeId :: string
  nodePortSegmentId :: "string option"
  start :: xy
  end' :: xy
  availableZ :: "real list"
  connectionNames :: "string list"
  assignedPoints :: "AssignedPoint list option"

text \<open>
  Segments are objects: the solver mutates them in place and finds them in its arrays by
  identity. A reference is an address into a store of segment objects.
\<close>

type_synonym ref = nat

text \<open>
  Modelled from the spec: the \<^verbatim>\<open>BaseSolver\<close> class is not among the sources. Its
  state is the pair of terminal flags and the error description of the Stepwise Solver
  Contract, and the iteration cap that the constructors set.
\<close>

record BaseSolver =
  solved :: bool
  failed :: bool
  error :: "string option"
  MAX_ITERATIONS :: nat

record CapacitySegmentToPointSolver = BaseSolver +
  store :: "ref \<Rightarrow> Segment"
  unsolvedSegments :: "ref list"
  solvedSegments :: "ref list"
  nodeMap :: "string \<rightharpoonup> CapacityMeshNode"

section \<open>Array helpers\<close>

text \<open>\<^verbatim>\<open>xs.indexOf(v)\<close>: the first index holding \<open>v\<close>, or -1.\<close>

fun indexOf :: "'a list \<Rightarrow> 'a \<Rightarrow> int" where
  "indexOf [] v = - 1"
| "indexOf (a # xs) v =
     (if a = v then 0 else (let i = indexOf xs v in if i < 0 then - 1 else i + 1))"

text \<open>
  \<^verbatim>\<open>xs.splice(i, 1)\<close>: removes one element at \<open>i\<close>; a negative \<open>i\<close> counts from the
  end of the array (so -1 removes the last element).
\<close>

definition splice1 :: "int \<Rightarrow> 'a list \<Rightarrow> 'a list" where
  "splice1 i xs =
     (let n = int (length xs);
          k = (if i < 0 then max (n + i) 0 else min i n)
      in take (nat k) xs @ drop (Suc (nat k)) xs)"

text \<open>\<^verbatim>\<open>xs[0]\<close>, which is \<^verbatim>\<open>undefined\<close> on an empty array.\<close>

definition first :: "'a list \<Rightarrow> 'a option" where
  "first xs = (case xs of [] \<Rightarrow> None | a # _ \<Rightarrow> Some a)"

text \<open>\<^verbatim>\<open>Object.fromEntries(nodes.map((node) => [node.capacityMeshNodeId, node]))\<close>:
  a later node with the same identity replaces an earlier one.\<close>

definition fromEntries :: "CapacityMeshNode list \<Rightarrow> (string \<rightharpoonup> CapacityMeshNode)" where
  "fromEntries nodes = fold (\<lambda>node m. m(capacityMeshNodeId node \<mapsto> node)) nodes Map.empty"

section \<open>CapacitySegmentToPointSolver\<close>

text \<open>The constructor. The colour map is cosmetic and left out.\<close>

definition newCapacitySegmentToPointSolver ::
  "(ref \<Rightarrow> Segment) \<Rightarrow> ref list \<Rightarrow> CapacityMeshNode list \<Rightarrow> CapacitySegmentToPointSolver" where
  "newCapacitySegmentToPointSolver h segments nodes =
     \<lparr>solved = False, failed = False, error = None, MAX_ITERATIONS = 100000,
      store = h, unsolvedSegments = segments, solvedSegments = [],
      nodeMap = fromEntries nodes\<rparr>"

text \<open>The test \<^verbatim>\<open>"assignedPoints" in seg && seg.assignedPoints?.length === n\<close>.\<close>

definition alreadyProcessed :: "Segment \<Rightarrow> bool" where
  "alreadyProcessed seg =
     (case assignedPoints seg of
        None \<Rightarrow> False
      | Some aps \<Rightarrow> length aps = length (connectionNames seg))"

definition centerOf :: "Segment \<Rightarrow> xyz" where
  "centerOf seg =
     \<lparr>x = (x (start seg) + x (end' seg)) / 2,
      y = (y (start seg) + y (end' seg)) / 2,
      z = first (availableZ seg)\<rparr>"

text \<open>Moving a segment object: it is written back to the store with its points, spliced
  out of \<open>unsolvedSegments\<close> at its first index and pushed onto \<open>solvedSegments\<close>.\<close>

definition moveToSolved ::
  "ref \<Rightarrow> AssignedPoint list \<Rightarrow> CapacitySegmentToPointSolver \<Rightarrow> CapacitySegmentToPointSolver" where
  "moveToSolved r aps s =
     s\<lparr>store := (store s)(r := (store s r)\<lparr>assignedPoints := Some aps\<rparr>),
       unsolvedSegments := splice1 (indexOf (unsolvedSegments s) r) (unsolvedSegments s),
       solvedSegments := solvedSegments s @ [r]\<rparr>"

text \<open>The first loop of \<^verbatim>\<open>_step\<close>, over the copy \<open>unsolved\<close>; the flag is
  \<open>updated\<close>.\<close>

fun phaseA ::
  "ref list \<Rightarrow> CapacitySegmentToPointSolver \<times> bool \<Rightarrow> CapacitySegmentToPointSolver \<times> bool" where
  "phaseA [] (s, updated) = (s, updated)"
| "phaseA (r # rest) (s, updated) =
     (let seg = store s r; n = length (connectionNames seg) in
      if alreadyProcessed seg then phaseA rest (s, updated)
      else if n = 1 then
        phaseA rest
          (moveToSolved r [\<lparr>connectionName = connectionNames seg ! 0, point = centerOf seg\<rparr>] s,
           True)
      else phaseA rest (s, updated))"

text \<open>The candidate loop of the fallback: a strictly smaller count replaces the
  candidate.\<close>

fun pickCandidate :: "(ref \<Rightarrow> Segment) \<Rightarrow> ref \<Rightarrow> ref list \<Rightarrow> ref" where
  "pickCandidate h candidate [] = candidate"
| "pickCandidate h candidate (r # rest) =
     pickCandidate h
       (if length (connectionNames (h r)) < length (connectionNames (h candidate))
        then r else candidate) rest"

definition fallbackPoints :: "Segment \<Rightarrow> nat \<Rightarrow> xyz list" where
  "fallbackPoints candidate n =
     (let dx = x (end' candidate) - x (start candidate);
          dy = y (end' candidate) - y (start candidate)
      in map (\<lambda>i. let fraction = real i / real (n + 1) in
                \<lparr>x = x (start candidate) + dx * fraction,
                 y = y (start candidate) + dy * fraction,
                 z = first (availableZ candidate)\<rparr>) [1..<n + 1])"

definition fallbackAssignment :: "Segment \<Rightarrow> AssignedPoint list" where
  "fallbackAssignment candidate =
     (let sortedConnections = sort (connectionNames candidate);
          n = length sortedConnections;
          points = fallbackPoints candidate n
      in map (\<lambda>idx. \<lparr>connectionName = sortedConnections ! idx, point = points ! idx\<rparr>)
           [0..<length sortedConnections])"

definition phaseB ::
  "ref list \<Rightarrow> CapacitySegmentToPointSolver \<Rightarrow> CapacitySegmentToPointSolver" where
  "phaseB unsolved s =
     (let candidate = pickCandidate (store s) (unsolved ! 0) unsolved
      in moveToSolved candidate (fallbackAssignment (store s candidate)) s)"

definition CapacitySegmentToPointSolver_step ::
  "CapacitySegmentToPointSolver \<Rightarrow> CapacitySegmentToPointSolver" where
  "CapacitySegmentToPointSolver_step s0 =
     (let unsolved = unsolvedSegments s0;
          (s1, updated) = phaseA unsolved (s0, False);
          s2 = (if \<not> updated \<and> length unsolved > 0 then phaseB unsolved s1 else s1)
      in if length (unsolvedSegments s2) = 0 then s2\<lparr>solved := True\<rparr> else s2)"

text \<open>
  Modelled from the spec: \<^verbatim>\<open>BaseSolver.step\<close> is not among the sources. The contract
  says that it performs one unit of work and is a no-op once a terminal state is reached;
  the iteration cap belongs to the driving loop.
\<close>

definition segmentSolverStep ::
  "CapacitySegmentToPointSolver \<Rightarrow> CapacitySegmentToPointSolver" where
  "segmentSolverStep s = (if solved s \<or> failed s then s else CapacitySegmentToPointSolver_step s)"

subsection \<open>The port point query\<close>

text \<open>What JavaScript throws: \<^verbatim>\<open>new Error(message)\<close>, or the \<^verbatim>\<open>TypeError\<close> of
  reading a property of \<^verbatim>\<open>undefined\<close>.\<close>

datatype js_error = Error string | TypeError string

text \<open>\<^verbatim>\<open>{ ...ap.point, connectionName: ap.connectionName }\<close>: a point with the name of
  its connection (the field is \<open>portConnectionName\<close> here).\<close>

record PortPoint = xyz +
  portConnectionName :: string

text \<open>\<^verbatim>\<open>NodeWithPortPoints\<close>: identity, centre, width and height as in a mesh node, and
  the list of port points.\<close>

record NodeWithPortPoints = CapacityMeshNode +
  portPoints :: "PortPoint list"

definition toPortPoint :: "AssignedPoint \<Rightarrow> PortPoint" where
  "toPortPoint ap =
     \<lparr>x = x (point ap), y = y (point ap), z = z (point ap),
      portConnectionName = connectionName ap\<rparr>"

text \<open>The \<^verbatim>\<open>Map\<close> of the query keeps its entries in insertion order, one per key: a
  list of entries, looked up by \<open>capacityMeshNodeId\<close>.\<close>

definition mapHas :: "NodeWithPortPoints list \<Rightarrow> string \<Rightarrow> bool" where
  "mapHas m nodeId = list_ex (\<lambda>e. capacityMeshNodeId e = nodeId) m"

text \<open>\<^verbatim>\<open>map.get(nodeId)!.portPoints.push(...pts)\<close>\<close>

definition pushPortPoints ::
  "string \<Rightarrow> PortPoint list \<Rightarrow> NodeWithPortPoints list \<Rightarrow> NodeWithPortPoints list" where
  "pushPortPoints nodeId pts m =
     map (\<lambda>e. if capacityMeshNodeId e = nodeId then e\<lparr>portPoints := portPoints e @ pts\<rparr> else e) m"

text \<open>The loop over \<open>solvedSegments\<close>. The lookup \<^verbatim>\<open>this.nodeMap[nodeId]\<close> is taken
  to give \<^verbatim>\<open>undefined\<close> for an identity that is not a key of the object. Reading
  \<^verbatim>\<open>node.center\<close> of an undefined node, or mapping over absent
  \<^verbatim>\<open>assignedPoints\<close>, throws.\<close>

fun collectPortPoints ::
  "CapacitySegmentToPointSolver \<Rightarrow> ref list \<Rightarrow> NodeWithPortPoints list
     \<Rightarrow> js_error + NodeWithPortPoints list" where
  "collectPortPoints s [] m = Inr m"
| "collectPortPoints s (r # rest) m =
     (let seg = store s r; nodeId = ownerNodeId seg; node = nodeMap s nodeId in
      case (if \<not> mapHas m nodeId then
              (case node of
                 None \<Rightarrow> Inl (TypeError ''node is undefined'')
               | Some nd \<Rightarrow>
                   Inr (m @ [\<lparr>capacityMeshNodeId = nodeId, center = center nd,
                              width = width nd, height = height nd, portPoints = []\<rparr>]))
            else Inr m) of
        Inl e \<Rightarrow> Inl e
      | Inr m1 \<Rightarrow>
          (case assignedPoints seg of
             None \<Rightarrow> Inl (TypeError ''seg.assignedPoints is undefined'')
           | Some aps \<Rightarrow>
               collectPortPoints s rest (pushPortPoints nodeId (map toPortPoint aps) m1)))"

definition getNodesWithPortPoints ::
  "CapacitySegmentToPointSolver \<Rightarrow> js_error + NodeWithPortPoints list" where
  "getNodesWithPortPoints s =
     (if \<not> solved s then
        Inl (Error ''CapacitySegmentToPointSolver not solved, can't give port points yet'')
      else collectPortPoints s (solvedSegments s) [])"

section \<open>CapacityPathingSingleSectionSolver\<close>

text \<open>A mesh edge joins the two node identities of \<^verbatim>\<open>nodeIds\<close>.\<close>

record CapacityMeshEdge =
  capacityMeshEdgeId :: string
  nodeIds :: "string \<times> string"

text \<open>A connection path: \<open>connectionNameOf\<close> is \<^verbatim>\<open>conn.connection.name\<close>, and the
  optional \<^verbatim>\<open>path\<close> is the list of mesh nodes of the route.\<close>

record ConnectionPathWithNodes =
  connectionNameOf :: string
  path :: "CapacityMeshNode list option"

record Terminal = Named +
  startNodeId :: string
  endNodeId :: string

text \<open>Of the hyperparameters the extractor reads \<^verbatim>\<open>EXPANSION_DEGREES\<close> only: the hop
  radius, a number of hops.\<close>

record CpssPathingSolverHyperParameters =
  EXPANSION_DEGREES :: "nat option"

text \<open>
  Modelled from the spec: the section sub-solver
  (\<^verbatim>\<open>HyperCapacityPathingSingleSectionPathingSolver\<close>) is not among the sources. It is a
  solver of the Stepwise Solver Contract with the readable fields \<open>solved\<close>, \<open>failed\<close>
  and \<open>error\<close>; the rest of its state is opaque. Its constructor and its \<open>step\<close> are
  parameters of the model.
\<close>

record 'a SubSolver = BaseSolver +
  internal :: 'a

text \<open>The extractor's state. \<open>nodeLookup\<close> is the class's \<^verbatim>\<open>nodeMap\<close>; a
  \<^verbatim>\<open>Map\<close> with array values is an association list in insertion order; a section node
  that the lookup does not have is \<^verbatim>\<open>undefined\<close>. The colour map is left out.\<close>

record 'a CapacityPathingSingleSectionSolver = BaseSolver +
  centerNodeId :: string
  connectionsWithNodes :: "ConnectionPathWithNodes list"
  nodes :: "CapacityMeshNode list"
  nodeLookup :: "string \<rightharpoonup> CapacityMeshNode"
  edges :: "CapacityMeshEdge list"
  nodeEdgeMap :: "(string \<times> CapacityMeshEdge list) list"
  expansionDegrees :: nat
  sectionNodes :: "CapacityMeshNode option list"
  sectionEdges :: "CapacityMeshEdge list"
  sectionConnectionTerminals :: "Terminal list"
  activeSubSolver :: "'a SubSolver option"

text \<open>
  Modelled from the spec: \<^verbatim>\<open>getNodeEdgeMap\<close> is not among the sources. It gives the
  adjacency implied by the mesh edges: every node identity is mapped to the edges that it
  is an endpoint of, in the order of the edge list.
\<close>

definition addEdgeFor ::
  "CapacityMeshEdge \<Rightarrow> string \<Rightarrow> (string \<times> CapacityMeshEdge list) list
     \<Rightarrow> (string \<times> CapacityMeshEdge list) list" where
  "addEdgeFor edge nodeId m =
     (case map_of m nodeId of
        None \<Rightarrow> m @ [(nodeId, [edge])]
      | Some es \<Rightarrow> map (\<lambda>(k, v). if k = nodeId then (k, v @ [edge]) else (k, v)) m)"

definition getNodeEdgeMap :: "CapacityMeshEdge list \<Rightarrow> (string \<times> CapacityMeshEdge list) list" where
  "getNodeEdgeMap es =
     fold (\<lambda>edge m. addEdgeFor edge (snd (nodeIds edge)) (addEdgeFor edge (fst (nodeIds edge)) m))
       es []"

text \<open>\<^verbatim>\<open>nodeEdgeMap.get(nodeId)?.flatMap((edge) => edge.nodeIds.filter((id) => id !== nodeId)) ?? []\<close>\<close>

definition neighborsOf :: "(string \<times> CapacityMeshEdge list) list \<Rightarrow> string \<Rightarrow> string list" where
  "neighborsOf m nodeId =
     (case map_of m nodeId of
        None \<Rightarrow> []
      | Some es \<Rightarrow>
          concat (map (\<lambda>edge. filter (\<lambda>id. id \<noteq> nodeId) [fst (nodeIds edge), snd (nodeIds edge)]) es))"

text \<open>The inner loop over the neighbours. The set \<open>sectionNodeIds\<close> keeps its insertion
  order: a list without repetitions.\<close>

fun enqueueNeighbors ::
  "nat \<Rightarrow> string list \<Rightarrow> string list \<times> (string \<times> nat) list \<Rightarrow> string list \<times> (string \<times> nat) list" where
  "enqueueNeighbors depth [] (sectionNodeIds, queue) = (sectionNodeIds, queue)"
| "enqueueNeighbors depth (neighborId # rest) (sectionNodeIds, queue) =
     (if neighborId \<notin> set sectionNodeIds then
        enqueueNeighbors depth rest (sectionNodeIds @ [neighborId], queue @ [(neighborId, depth + 1)])
      else enqueueNeighbors depth rest (sectionNodeIds, queue))"

text \<open>All node identities that occur in the values of the adjacency map.\<close>

definition mapNodeIds :: "(string \<times> CapacityMeshEdge list) list \<Rightarrow> string set" where
  "mapNodeIds m = (\<Union>(k, es)\<in>set m. \<Union>edge\<in>set es. {fst (nodeIds edge), snd (nodeIds edge)})"

text \<open>The \<^verbatim>\<open>while (head < queue.length)\<close> loop, on the state
  \<open>(sectionNodeIds, queue, head)\<close>.\<close>

function bfsLoop ::
  "(string \<times> CapacityMeshEdge list) list \<Rightarrow> nat
     \<Rightarrow> string list \<times> (string \<times> nat) list \<times> nat
     \<Rightarrow> string list \<times> (string \<times> nat) list \<times> nat" where
  "bfsLoop m r (sectionNodeIds, queue, head) =
     (if head < length queue then
        (let (nodeId, depth) = queue ! head in
         if depth \<ge> r then bfsLoop m r (sectionNodeIds, queue, head + 1)
         else
           (let (sectionNodeIds', queue') =
                  enqueueNeighbors depth (neighborsOf m nodeId) (sectionNodeIds, queue)
            in bfsLoop m r (sectionNodeIds', queue', head + 1)))
      else (sectionNodeIds, queue, head))"
  by pat_completeness auto
termination
proof (relation "measure (\<lambda>(m, r, ids, queue, head).
          card (mapNodeIds m - set ids) + (length queue - head))", goal_cases)
  case 1
  show ?case by simp
next
  case (2 m r sectionNodeIds queue head x nodeId depth)
  then show ?case by simp
next
  case (3 m r sectionNodeIds queue head x nodeId depth y ids' queue')
  have fin: "finite (mapNodeIds m)" by (auto simp: mapNodeIds_def)
  have sub: "set (neighborsOf m nodeId) \<subseteq> mapNodeIds m"
  proof
    fix w assume w: "w \<in> set (neighborsOf m nodeId)"
    then obtain es where es: "map_of m nodeId = Some es"
      by (cases "map_of m nodeId") (auto simp: neighborsOf_def)
    with w obtain edge where "edge \<in> set es"
      and "w = fst (nodeIds edge) \<or> w = snd (nodeIds edge)"
      by (auto simp: neighborsOf_def split: if_splits)
    moreover from es have "(nodeId, es) \<in> set m" by (rule map_of_SomeD)
    ultimately show "w \<in> mapNodeIds m" unfolding mapNodeIds_def by blast
  qed
  have key: "card (mapNodeIds m - set (fst (enqueueNeighbors d nbs (ids, q))))
                + length (snd (enqueueNeighbors d nbs (ids, q)))
             = card (mapNodeIds m - set ids) + length q"
    if "set nbs \<subseteq> mapNodeIds m" for d nbs ids q
    using that
  proof (induction nbs arbitrary: ids q)
    case Nil
    then show ?case by simp
  next
    case (Cons nb nbs)
    show ?case
    proof (cases "nb \<in> set ids")
      case True
      with Cons show ?thesis by simp
    next
      case False
      with Cons.prems have mem: "nb \<in> mapNodeIds m - set ids" by simp
      have "mapNodeIds m - set (ids @ [nb]) = (mapNodeIds m - set ids) - {nb}" by auto
      then have c1: "card (mapNodeIds m - set (ids @ [nb])) = card (mapNodeIds m - set ids) - 1"
        using mem fin by (simp add: card_Diff_singleton)
      have "finite (mapNodeIds m - set ids)" using fin by simp
      with mem have c2: "card (mapNodeIds m - set ids) > 0" by (auto simp: card_gt_0_iff)
      from Cons.prems have "set nbs \<subseteq> mapNodeIds m" by simp
      from Cons.IH [OF this, of "ids @ [nb]" "q @ [(nb, d + 1)]"] c1 c2 False
      show ?thesis by simp
    qed
  qed
  have mono: "length q \<le> length (snd (enqueueNeighbors d nbs (ids, q)))" for d nbs ids q
  proof (induction nbs arbitrary: ids q)
    case Nil
    show ?case by simp
  next
    case (Cons nb nbs)
    from Cons [where ids = ids and q = q] Cons [where ids = "ids @ [nb]" and q = "q @ [(nb, d + 1)]"]
    show ?case by auto
  qed
  from 3 have "enqueueNeighbors depth (neighborsOf m nodeId) (sectionNodeIds, queue) = (ids', queue')"
    by simp
  then have eq: "ids' = fst (enqueueNeighbors depth (neighborsOf m nodeId) (sectionNodeIds, queue))"
    "queue' = snd (enqueueNeighbors depth (neighborsOf m nodeId) (sectionNodeIds, queue))"
    by simp_all
  from key [OF sub, where d = depth and ids = sectionNodeIds and q = queue]
    mono [where q = queue and d = depth and nbs = "neighborsOf m nodeId" and ids = sectionNodeIds] 3(1)
  show ?case unfolding eq by simp
qed

text \<open>The set \<open>sectionNodeIds\<close> at the end of the traversal, in insertion order.\<close>

definition sectionNodeIdsOf :: "(string \<times> CapacityMeshEdge list) list \<Rightarrow> string \<Rightarrow> nat \<Rightarrow> string list" where
  "sectionNodeIdsOf m c r = fst (bfsLoop m r ([c], [(c, 0)], 0))"

text \<open>The forward scan for the first node of a path inside the section, and the backward
  scan from the last index for the last one.\<close>

fun findFirstInSection :: "string list \<Rightarrow> CapacityMeshNode list \<Rightarrow> string option" where
  "findFirstInSection ids [] = None"
| "findFirstInSection ids (node # rest) =
     (if capacityMeshNodeId node \<in> set ids then Some (capacityMeshNodeId node)
      else findFirstInSection ids rest)"

fun findLastInSection :: "string list \<Rightarrow> CapacityMeshNode list \<Rightarrow> nat \<Rightarrow> string option" where
  "findLastInSection ids p 0 = None"
| "findLastInSection ids p (Suc i) =
     (let node = p ! i in
      if capacityMeshNodeId node \<in> set ids then Some (capacityMeshNodeId node)
      else findLastInSection ids p i)"

text \<open>The loop over the connections. The test \<^verbatim>\<open>startNodeId && endNodeId\<close> holds when
  both are found and neither is the empty string.\<close>

fun computeTerminals ::
  "string list \<Rightarrow> ConnectionPathWithNodes list \<Rightarrow> Terminal list \<Rightarrow> Terminal list" where
  "computeTerminals ids [] terminals = terminals"
| "computeTerminals ids (conn # rest) terminals =
     (case path conn of
        None \<Rightarrow> computeTerminals ids rest terminals
      | Some p \<Rightarrow>
          (case (findFirstInSection ids p, findLastInSection ids p (length p)) of
             (Some startId, Some endId) \<Rightarrow>
               if startId \<noteq> [] \<and> endId \<noteq> [] then
                 computeTerminals ids rest
                   (terminals @ [\<lparr>connectionName = connectionNameOf conn,
                                   startNodeId = startId, endNodeId = endId\<rparr>])
               else computeTerminals ids rest terminals
           | _ \<Rightarrow> computeTerminals ids rest terminals))"

definition computeSectionNodesTerminalsAndEdges ::
  "'a CapacityPathingSingleSectionSolver \<Rightarrow> 'a CapacityPathingSingleSectionSolver" where
  "computeSectionNodesTerminalsAndEdges s =
     (let sectionNodeIds = sectionNodeIdsOf (nodeEdgeMap s) (centerNodeId s) (expansionDegrees s)
      in s\<lparr>sectionNodes := map (nodeLookup s) sectionNodeIds,
           sectionEdges :=
             filter (\<lambda>edge. case nodeIds edge of (nodeIdA, nodeIdB) \<Rightarrow>
                       nodeIdA \<in> set sectionNodeIds \<and> nodeIdB \<in> set sectionNodeIds) (edges s),
           sectionConnectionTerminals := computeTerminals sectionNodeIds (connectionsWithNodes s) []\<rparr>)"

text \<open>The constructor; \<open>newSubSolver\<close> stands for the sub-solver's constructor.\<close>

definition newCapacityPathingSingleSectionSolver ::
  "(Terminal list \<Rightarrow> CapacityMeshNode option list \<Rightarrow> CapacityMeshEdge list
      \<Rightarrow> CpssPathingSolverHyperParameters option \<Rightarrow> 'a SubSolver)
     \<Rightarrow> string \<Rightarrow> ConnectionPathWithNodes list \<Rightarrow> CapacityMeshNode list \<Rightarrow> CapacityMeshEdge list
     \<Rightarrow> CpssPathingSolverHyperParameters option \<Rightarrow> 'a CapacityPathingSingleSectionSolver" where
  "newCapacityPathingSingleSectionSolver newSubSolver c conns ns es hyperParameters =
     (let s = computeSectionNodesTerminalsAndEdges
            \<lparr>solved = False, failed = False, error = None, MAX_ITERATIONS = 100000,
             centerNodeId = c, connectionsWithNodes = conns, nodes = ns,
             nodeLookup = fromEntries ns, edges = es, nodeEdgeMap = getNodeEdgeMap es,
             expansionDegrees =
               (case hyperParameters of
                  None \<Rightarrow> 3
                | Some hp \<Rightarrow> (case EXPANSION_DEGREES hp of None \<Rightarrow> 3 | Some d \<Rightarrow> d)),
             sectionNodes = [], sectionEdges = [], sectionConnectionTerminals = [],
             activeSubSolver = None\<rparr>
      in s\<lparr>activeSubSolver :=
             Some (newSubSolver (sectionConnectionTerminals s) (sectionNodes s) (sectionEdges s)
                     hyperParameters)\<rparr>)"

text \<open>\<^verbatim>\<open>_step\<close>; \<open>subStep\<close> stands for the sub-solver's \<^verbatim>\<open>step\<close>.\<close>

definition CapacityPathingSingleSectionSolver_step ::
  "('a SubSolver \<Rightarrow> 'a SubSolver) \<Rightarrow> 'a CapacityPathingSingleSectionSolver
     \<Rightarrow> 'a CapacityPathingSingleSectionSolver" where
  "CapacityPathingSingleSectionSolver_step subStep s0 =
     (let s = s0\<lparr>activeSubSolver := map_option subStep (activeSubSolver s0)\<rparr> in
      case activeSubSolver s of
        None \<Rightarrow> s
      | Some sub \<Rightarrow>
          if solved sub then s\<lparr>solved := True\<rparr>
          else if failed sub then s\<lparr>failed := True, error := error sub\<rparr>
          else s)"

section \<open>Auxiliary notions for the statements\<close>

text \<open>
  A reference is a pending single when the first loop of \<^verbatim>\<open>_step\<close> would assign it:
  it is not skipped as already processed and it has exactly one connection name.
  \<open>firsts\<close> keeps the first occurrence of every element, \<open>drained\<close> lists the
  pending singles of an array in the order of their first occurrence, and
  \<open>assignCenter\<close> is the write the first loop makes to a segment.
\<close>

definition pendingSingle :: "(ref \<Rightarrow> Segment) \<Rightarrow> ref \<Rightarrow> bool" where
  "pendingSingle h r = (\<not> alreadyProcessed (h r) \<and> length (connectionNames (h r)) = 1)"

fun firsts :: "'a list \<Rightarrow> 'a list" where
  "firsts [] = []"
| "firsts (a # xs) = a # filter (\<lambda>b. b \<noteq> a) (firsts xs)"

definition assignCenter :: "Segment \<Rightarrow> Segment" where
  "assignCenter seg =
     seg\<lparr>assignedPoints :=
           Some [\<lparr>connectionName = connectionNames seg ! 0, point = centerOf seg\<rparr>]\<rparr>"

definition drained :: "(ref \<Rightarrow> Segment) \<Rightarrow> ref list \<Rightarrow> ref list" where
  "drained h rs = firsts (filter (pendingSingle h) rs)"


section \<open>Example inputs\<close>

definition segCAB :: Segment where
  "segCAB = \<lparr>ownerNodeId = ''n1'', nodePortSegmentId = None,
     start = \<lparr>x = 0, y = 0\<rparr>, end' = \<lparr>x = 9, y = 0\<rparr>, availableZ = [0, 1],
     connectionNames = [''C'', ''A'', ''B''], assignedPoints = None\<rparr>"

definition segWide :: Segment where
  "segWide = \<lparr>ownerNodeId = ''n0'', nodePortSegmentId = None,
     start = \<lparr>x = 1, y = 1\<rparr>, end' = \<lparr>x = 1, y = 6\<rparr>, availableZ = [1],
     connectionNames = [''D'', ''C'', ''B'', ''A''], assignedPoints = None\<rparr>"

definition segSingle :: Segment where
  "segSingle = \<lparr>ownerNodeId = ''n1'', nodePortSegmentId = None,
     start = \<lparr>x = 0, y = 0\<rparr>, end' = \<lparr>x = 4, y = 2\<rparr>, availableZ = [1, 0],
     connectionNames = [''net1''], assignedPoints = None\<rparr>"

definition segEmpty :: Segment where
  "segEmpty = \<lparr>ownerNodeId = ''n2'', nodePortSegmentId = None,
     start = \<lparr>x = 0, y = 0\<rparr>, end' = \<lparr>x = 1, y = 0\<rparr>, availableZ = [0],
     connectionNames = [], assignedPoints = None\<rparr>"

definition fallbackStore :: "ref \<Rightarrow> Segment" where
  "fallbackStore r = (if r = 0 then segWide else segCAB)"

definition fallbackEngine :: CapacitySegmentToPointSolver where
  "fallbackEngine = newCapacitySegmentToPointSolver fallbackStore [0, 1, 2] []"

definition mixedStore :: "ref \<Rightarrow> Segment" where
  "mixedStore r = (if r = 1 then segCAB else segSingle)"

definition mixedEngine :: CapacitySegmentToPointSolver where
  "mixedEngine = newCapacitySegmentToPointSolver mixedStore [0, 1, 2] []"

definition degenerateStore :: "ref \<Rightarrow> Segment" where
  "degenerateStore r = (if r = 1 then segEmpty else segCAB)"

definition degenerateEngine :: CapacitySegmentToPointSolver where
  "degenerateEngine = newCapacitySegmentToPointSolver degenerateStore [0, 1] []"

definition emptyEngine :: CapacitySegmentToPointSolver where
  "emptyEngine = newCapacitySegmentToPointSolver fallbackStore [] []"

text \<open>The port points one segment contributes, and the entries of a query result seen as
  a grouping of the segments \<open>rs\<close> by owner.\<close>

definition segmentPortPoints :: "Segment \<Rightarrow> PortPoint list" where
  "segmentPortPoints seg =
     (case assignedPoints seg of None \<Rightarrow> [] | Some aps \<Rightarrow> map toPortPoint aps)"

definition entryGroups ::
  "CapacitySegmentToPointSolver \<Rightarrow> ref list \<Rightarrow> NodeWithPortPoints \<Rightarrow> bool" where
  "entryGroups s rs e =
     ((\<exists>nd. nodeMap s (capacityMeshNodeId e) = Some nd
          \<and> center e = center nd \<and> width e = width nd \<and> height e = height nd)
      \<and> portPoints e =
          concat (map (\<lambda>r. segmentPortPoints (store s r))
            (filter (\<lambda>r. ownerNodeId (store s r) = capacityMeshNodeId e) rs)))"

definition groupsSegments ::
  "CapacitySegmentToPointSolver \<Rightarrow> ref list \<Rightarrow> NodeWithPortPoints list \<Rightarrow> bool" where
  "groupsSegments s rs m =
     (distinct (map capacityMeshNodeId m)
      \<and> set (map capacityMeshNodeId m) = set (map (\<lambda>r. ownerNodeId (store s r)) rs)
      \<and> (\<forall>e\<in>set m. entryGroups s rs e))"

definition nodeA :: CapacityMeshNode where
  "nodeA = \<lparr>capacityMeshNodeId = ''n1'', center = \<lparr>x = 5, y = 5\<rparr>, width = 10, height = 4\<rparr>"

definition nodeB :: CapacityMeshNode where
  "nodeB = \<lparr>capacityMeshNodeId = ''n0'', center = \<lparr>x = 1, y = 3\<rparr>, width = 2, height = 6\<rparr>"

definition queryEngine :: CapacitySegmentToPointSolver where
  "queryEngine = newCapacitySegmentToPointSolver mixedStore [0, 2] [nodeA, nodeB]"

section \<open>Hop distance and the traversal invariant\<close>

text \<open>
  The adjacency implied by the mesh edges: two node identities are adjacent when an edge
  joins them. \<open>hops es c k v\<close> says that \<open>k\<close> hops lead from \<open>c\<close> to \<open>v\<close>; the hop
  distance of \<open>v\<close> is at most \<open>r\<close> when some \<open>k \<le> r\<close> hops do.
\<close>

definition adjacent :: "CapacityMeshEdge list \<Rightarrow> string \<Rightarrow> string \<Rightarrow> bool" where
  "adjacent es v w = (\<exists>e\<in>set es. nodeIds e = (v, w) \<or> nodeIds e = (w, v))"

inductive hops :: "CapacityMeshEdge list \<Rightarrow> string \<Rightarrow> nat \<Rightarrow> string \<Rightarrow> bool"
  for es :: "CapacityMeshEdge list" and c :: string where
  hops_zero: "hops es c 0 c"
| hops_step: "hops es c k v \<Longrightarrow> adjacent es v w \<Longrightarrow> hops es c (Suc k) w"

definition withinHops :: "CapacityMeshEdge list \<Rightarrow> string \<Rightarrow> nat \<Rightarrow> string set" where
  "withinHops es c r = {v. \<exists>k\<le>r. hops es c k v}"

text \<open>The edge list a node identity is mapped to (empty when it has no entry).\<close>

definition edgesAt :: "(string \<times> CapacityMeshEdge list) list \<Rightarrow> string \<Rightarrow> CapacityMeshEdge list" where
  "edgesAt m v = (case map_of m v of None \<Rightarrow> [] | Some es \<Rightarrow> es)"

text \<open>
  What the traversal keeps true of \<open>(sectionNodeIds, queue, head)\<close>: the queue lists the
  section's identities, each once, with the focus among them; every depth is at most the
  radius and is the least number of hops to its node; depths never decrease along the queue
  and stay within one of the depth at \<open>head\<close>; and every entry before \<open>head\<close> whose depth
  is below the radius has all its adjacent nodes in the section.
\<close>

definition bfsInv ::
  "CapacityMeshEdge list \<Rightarrow> string \<Rightarrow> nat \<Rightarrow> string list \<times> (string \<times> nat) list \<times> nat \<Rightarrow> bool" where
  "bfsInv es c r st =
     (case st of (ids, queue, head) \<Rightarrow>
        map fst queue = ids \<and> distinct ids \<and> c \<in> set ids \<and> head \<le> length queue
        \<and> (\<forall>p\<in>set queue. snd p \<le> r \<and> hops es c (snd p) (fst p)
               \<and> (\<forall>k. hops es c k (fst p) \<longrightarrow> snd p \<le> k))
        \<and> sorted (map snd queue)
        \<and> (head < length queue \<longrightarrow> (\<forall>p\<in>set queue. snd p \<le> Suc (snd (queue ! head))))
        \<and> (\<forall>i<head. snd (queue ! i) < r \<longrightarrow>
               (\<forall>w. adjacent es (fst (queue ! i)) w \<longrightarrow> w \<in> set ids)))"

text \<open>The node identities of a path that lie in the section, in the order of the path.\<close>

definition inSection :: "string list \<Rightarrow> CapacityMeshNode list \<Rightarrow> string list" where
  "inSection ids p = filter (\<lambda>v. v \<in> set ids) (map capacityMeshNodeId p)"

text \<open>The terminals one connection contributes, as the claims describe them: a record for
  a connection with a path that meets the section, from the first to the last of its nodes
  in the section, provided neither identity is the empty string.\<close>

definition terminalOf :: "string list \<Rightarrow> ConnectionPathWithNodes \<Rightarrow> Terminal list" where
  "terminalOf ids conn =
     (case path conn of
        None \<Rightarrow> []
      | Some p \<Rightarrow>
          if inSection ids p \<noteq> [] \<and> hd (inSection ids p) \<noteq> [] \<and> last (inSection ids p) \<noteq> []
          then [\<lparr>connectionName = connectionNameOf conn,
                  startNodeId = hd (inSection ids p), endNodeId = last (inSection ids p)\<rparr>]
          else [])"

section \<open>Example sections\<close>

text \<open>The path graph n0 - n1 - n2 - n3 with focus n1 and hop radius 1, and a mesh
  in which the focus node has the empty string as its identity.\<close>

definition meshNode :: "string \<Rightarrow> CapacityMeshNode" where
  "meshNode v = \<lparr>capacityMeshNodeId = v, center = \<lparr>x = 0, y = 0\<rparr>, width = 1, height = 1\<rparr>"

definition pathNodes :: "CapacityMeshNode list" where
  "pathNodes = [meshNode ''n0'', meshNode ''n1'', meshNode ''n2'', meshNode ''n3'']"

definition pathEdges :: "CapacityMeshEdge list" where
  "pathEdges =
     [\<lparr>capacityMeshEdgeId = ''e01'', nodeIds = (''n0'', ''n1'')\<rparr>,
      \<lparr>capacityMeshEdgeId = ''e12'', nodeIds = (''n1'', ''n2'')\<rparr>,
      \<lparr>capacityMeshEdgeId = ''e23'', nodeIds = (''n2'', ''n3'')\<rparr>]"

definition pathConnections :: "ConnectionPathWithNodes list" where
  "pathConnections =
     [\<lparr>connectionNameOf = ''netA'', path = Some pathNodes\<rparr>,
      \<lparr>connectionNameOf = ''netB'', path = Some [meshNode ''n3'']\<rparr>,
      \<lparr>connectionNameOf = ''netC'', path = None\<rparr>]"

definition idleSubSolver :: "unit SubSolver" where
  "idleSubSolver = \<lparr>solved = False, failed = False, error = None, MAX_ITERATIONS = 100000,
     internal = ()\<rparr>"

definition newIdleSubSolver ::
  "Terminal list \<Rightarrow> CapacityMeshNode option list \<Rightarrow> CapacityMeshEdge list
     \<Rightarrow> CpssPathingSolverHyperParameters option \<Rightarrow> unit SubSolver" where
  "newIdleSubSolver terminals sns ses hp = idleSubSolver"

definition pathSection :: "unit CapacityPathingSingleSectionSolver" where
  "pathSection =
     newCapacityPathingSingleSectionSolver newIdleSubSolver ''n1'' pathConnections pathNodes
       pathEdges (Some \<lparr>EXPANSION_DEGREES = Some 1\<rparr>)"

definition blankEdges :: "CapacityMeshEdge list" where
  "blankEdges = [\<lparr>capacityMeshEdgeId = ''e0'', nodeIds = ([], ''n1'')\<rparr>]"

definition blankConnections :: "ConnectionPathWithNodes list" where
  "blankConnections =
     [\<lparr>connectionNameOf = ''netA'', path = Some [meshNode [], meshNode ''n1'']\<rparr>,
      \<lparr>connectionNameOf = ''netB'', path = Some [meshNode ''n1'', meshNode []]\<rparr>,
      \<lparr>connectionNameOf = ''netC'', path = None\<rparr>,
      \<lparr>connectionNameOf = ''netD'', path = Some [meshNode ''n1'']\<rparr>]"

definition blankSection :: "unit CapacityPathingSingleSectionSolver" where
  "blankSection =
     newCapacityPathingSingleSectionSolver newIdleSubSolver [] blankConnections
       [meshNode [], meshNode ''n1''] blankEdges None"

text \<open>A sub-solver step that fails with a message, and one that solves.\<close>

definition failingStep :: "unit SubSolver \<Rightarrow> unit SubSolver" where
  "failingStep sub = sub\<lparr>failed := True, error := Some ''no path found''\<rparr>"

definition solvingStep :: "unit SubSolver \<Rightarrow> unit SubSolver" where
  "solvingStep sub = sub\<lparr>solved := True\<rparr>"

section \<open>Facts about the segment point assignment engine\<close>

lemma indexOf_mem:
  "v \<in> set xs \<Longrightarrow> 0 \<le> indexOf xs v \<and> indexOf xs v < int (length xs)
     \<and> take (nat (indexOf xs v)) xs @ drop (Suc (nat (indexOf xs v))) xs = remove1 v xs"
proof (induction xs)
  case Nil
  then show ?case by simp
next
  case (Cons a xs)
  show ?case
  proof (cases "a = v")
    case True
    then show ?thesis by simp
  next
    case False
    with Cons.prems have "v \<in> set xs" by simp
    from Cons.IH [OF this] False show ?thesis
      by (simp add: Let_def nat_add_distrib)
  qed
qed

lemma indexOf_notmem: "v \<notin> set xs \<Longrightarrow> indexOf xs v = - 1"
  by (induction xs) (auto simp: Let_def)

lemma splice1_indexOf: "v \<in> set xs \<Longrightarrow> splice1 (indexOf xs v) xs = remove1 v xs"
  using indexOf_mem [of v xs] by (simp add: splice1_def Let_def min_def)

lemma splice1_indexOf_missing: "v \<notin> set xs \<Longrightarrow> splice1 (indexOf xs v) xs = butlast xs"
  by (cases xs rule: rev_cases) (auto simp: splice1_def Let_def indexOf_notmem max_def butlast_conv_take)

lemma set_firsts [simp]: "set (firsts xs) = set xs"
  by (induction xs) auto

lemma distinct_firsts [simp]: "distinct (firsts xs)"
  by (induction xs) auto

lemma filter_firsts: "filter Q (firsts xs) = firsts (filter Q xs)"
proof (induction xs)
  case Nil
  then show ?case by simp
next
  case (Cons a xs)
  have "filter Q (filter (\<lambda>b. b \<noteq> a) (firsts xs)) = filter (\<lambda>b. b \<noteq> a) (filter Q (firsts xs))"
    by (simp add: conj_commute)
  moreover have "\<not> Q a \<Longrightarrow> filter (\<lambda>b. b \<noteq> a) (firsts (filter Q xs)) = firsts (filter Q xs)"
    by (rule filter_True) auto
  ultimately show ?case using Cons by simp
qed

lemma pendingSingle_assignCenter:
  "pendingSingle h r \<Longrightarrow> pendingSingle (h(r := assignCenter (h r))) q = (pendingSingle h q \<and> q \<noteq> r)"
  by (auto simp: pendingSingle_def assignCenter_def alreadyProcessed_def)

lemma drained_Cons_pending:
  "pendingSingle h r \<Longrightarrow>
     drained h (r # rest) = r # drained (h(r := assignCenter (h r))) rest"
proof -
  assume p: "pendingSingle h r"
  have "pendingSingle (h(r := assignCenter (h r))) = (\<lambda>q. pendingSingle h q \<and> q \<noteq> r)"
    using pendingSingle_assignCenter [OF p] by (simp add: fun_eq_iff)
  then have "filter (pendingSingle (h(r := assignCenter (h r)))) rest
        = filter (\<lambda>b. b \<noteq> r) (filter (pendingSingle h) rest)"
    by (simp add: conj_commute)
  then show ?thesis using p by (simp add: drained_def filter_firsts)
qed

lemma drained_Cons_skip: "\<not> pendingSingle h r \<Longrightarrow> drained h (r # rest) = drained h rest"
  by (simp add: drained_def)

lemma phaseA_char:
  "phaseA rs (s, updated) =
     (s\<lparr>store := (\<lambda>q. if q \<in> set rs \<and> pendingSingle (store s) q then assignCenter (store s q) else store s q),
        unsolvedSegments := fold (\<lambda>r us. splice1 (indexOf us r) us) (drained (store s) rs) (unsolvedSegments s),
        solvedSegments := solvedSegments s @ drained (store s) rs\<rparr>,
      updated \<or> drained (store s) rs \<noteq> [])"
proof (induction rs arbitrary: s updated)
  case Nil
  then show ?case by (simp add: drained_def)
next
  case (Cons r rest)
  show ?case
  proof (cases "pendingSingle (store s) r")
    case True
    let ?s1 = "moveToSolved r [\<lparr>connectionName = connectionNames (store s r) ! 0, point = centerOf (store s r)\<rparr>] s"
    have st: "store ?s1 = (store s)(r := assignCenter (store s r))"
      by (simp add: moveToSolved_def assignCenter_def)
    have step: "phaseA (r # rest) (s, updated) = phaseA rest (?s1, True)"
      using True by (simp add: pendingSingle_def Let_def)
    have sto: "(\<lambda>q. if q \<in> set rest \<and> pendingSingle (store ?s1) q then assignCenter (store ?s1 q) else store ?s1 q)
       = (\<lambda>q. if q \<in> set (r # rest) \<and> pendingSingle (store s) q then assignCenter (store s q) else store s q)"
      using True by (auto simp: st pendingSingle_assignCenter fun_eq_iff)
    show ?thesis
      unfolding step Cons.IH sto
      by (simp add: drained_Cons_pending [OF True] st) (simp add: moveToSolved_def)
  next
    case False
    then have "phaseA (r # rest) (s, updated) = phaseA rest (s, updated)"
      by (auto simp: pendingSingle_def Let_def)
    moreover have "(\<lambda>q. if q \<in> set rest \<and> pendingSingle (store s) q then assignCenter (store s q) else store s q)
       = (\<lambda>q. if q \<in> set (r # rest) \<and> pendingSingle (store s) q then assignCenter (store s q) else store s q)"
      using False by (auto simp: fun_eq_iff)
    ultimately show ?thesis
      using False by (simp add: Cons.IH drained_Cons_skip)
  qed
qed

lemma fold_splice_remove1:
  "distinct D \<Longrightarrow> set D \<subseteq> set us \<Longrightarrow>
     fold (\<lambda>r us. splice1 (indexOf us r) us) D us = fold remove1 D us
     \<and> length (fold remove1 D us) + length D = length us"
proof (induction D arbitrary: us)
  case Nil
  then show ?case by simp
next
  case (Cons r D)
  from Cons.prems have r: "r \<in> set us" and d: "distinct D" and nr: "r \<notin> set D" by auto
  have sub: "set D \<subseteq> set (remove1 r us)"
  proof
    fix q assume q: "q \<in> set D"
    with nr have "q \<noteq> r" by auto
    moreover from q Cons.prems have "q \<in> set us" by auto
    ultimately show "q \<in> set (remove1 r us)" by (simp add: in_set_remove1)
  qed
  from r have "length us > 0" by (cases us) auto
  with Cons.IH [OF d sub] r show ?case
    by (simp add: splice1_indexOf length_remove1)
qed

lemma drained_subset: "set (drained h rs) \<subseteq> set rs"
  by (auto simp: drained_def)

lemma drained_Nil_iff: "drained h rs = [] \<longleftrightarrow> (\<forall>r\<in>set rs. \<not> pendingSingle h r)"
proof -
  have "drained h rs = [] \<longleftrightarrow> set (drained h rs) = {}" by simp
  also have "\<dots> \<longleftrightarrow> (\<forall>r\<in>set rs. \<not> pendingSingle h r)" by (auto simp: drained_def)
  finally show ?thesis .
qed

lemma pickCandidate_first_min:
  "\<exists>i<length (c # rs). (c # rs) ! i = pickCandidate h c rs
      \<and> (\<forall>j<i. length (connectionNames (h (pickCandidate h c rs))) < length (connectionNames (h ((c # rs) ! j))))
      \<and> (\<forall>j<length (c # rs). length (connectionNames (h (pickCandidate h c rs))) \<le> length (connectionNames (h ((c # rs) ! j))))"
proof (induction rs arbitrary: c)
  case Nil
  then show ?case by simp
next
  case (Cons r rs)
  let ?n = "\<lambda>q. length (connectionNames (h q))"
  show ?case
  proof (cases "?n r < ?n c")
    case True
    then have pc: "pickCandidate h c (r # rs) = pickCandidate h r rs" by simp
    from Cons.IH [of r] obtain i where i: "i < length (r # rs)" "(r # rs) ! i = pickCandidate h r rs"
      "\<forall>j<i. ?n (pickCandidate h r rs) < ?n ((r # rs) ! j)"
      "\<forall>j<length (r # rs). ?n (pickCandidate h r rs) \<le> ?n ((r # rs) ! j)" by blast
    from i(4) have le: "?n (pickCandidate h r rs) \<le> ?n r" by fastforce
    have a: "\<forall>j<Suc i. ?n (pickCandidate h r rs) < ?n ((c # r # rs) ! j)"
    proof (intro allI impI)
      fix j assume "j < Suc i"
      then show "?n (pickCandidate h r rs) < ?n ((c # r # rs) ! j)"
        using i(3) le True by (cases j) auto
    qed
    have b: "\<forall>j<length (c # r # rs). ?n (pickCandidate h r rs) \<le> ?n ((c # r # rs) ! j)"
    proof (intro allI impI)
      fix j assume "j < length (c # r # rs)"
      then show "?n (pickCandidate h r rs) \<le> ?n ((c # r # rs) ! j)"
        using i(4) le True by (cases j) auto
    qed
    show ?thesis unfolding pc
      by (rule exI [of _ "Suc i"]) (use i(1,2) a b in simp)
  next
    case False
    then have pc: "pickCandidate h c (r # rs) = pickCandidate h c rs" by simp
    from Cons.IH [of c] obtain i where i: "i < length (c # rs)" "(c # rs) ! i = pickCandidate h c rs"
      "\<forall>j<i. ?n (pickCandidate h c rs) < ?n ((c # rs) ! j)"
      "\<forall>j<length (c # rs). ?n (pickCandidate h c rs) \<le> ?n ((c # rs) ! j)" by blast
    from i(4) have le: "?n (pickCandidate h c rs) \<le> ?n c" by fastforce
    show ?thesis
    proof (cases i)
      case 0
      with i(2) have eq: "pickCandidate h c rs = c" by simp
      have "\<forall>j<length (c # r # rs). ?n c \<le> ?n ((c # r # rs) ! j)"
      proof (intro allI impI)
        fix j assume j: "j < length (c # r # rs)"
        show "?n c \<le> ?n ((c # r # rs) ! j)"
        proof (cases j)
          case 0 then show ?thesis by simp
        next
          case (Suc k)
          show ?thesis
          proof (cases k)
            case 0 with Suc False show ?thesis by simp
          next
            case (Suc m)
            with \<open>j = Suc k\<close> j i(4) eq show ?thesis by (auto dest: spec [of _ "Suc m"])
          qed
        qed
      qed
      then show ?thesis unfolding pc eq
        by (intro exI [of _ 0]) simp
    next
      case (Suc k)
      from i(3) Suc have lt: "?n (pickCandidate h c rs) < ?n c" by auto
      have a: "\<forall>j<Suc i. ?n (pickCandidate h c rs) < ?n ((c # r # rs) ! j)"
      proof (intro allI impI)
        fix j assume j: "j < Suc i"
        show "?n (pickCandidate h c rs) < ?n ((c # r # rs) ! j)"
        proof (cases j)
          case 0 with lt show ?thesis by simp
        next
          case (Suc m)
          show ?thesis
          proof (cases m)
            case 0 with \<open>j = Suc m\<close> lt False show ?thesis by simp
          next
            case (Suc m')
            with \<open>j = Suc m\<close> j i(3) show ?thesis by (auto dest: spec [of _ "Suc m'"])
          qed
        qed
      qed
      have b: "\<forall>j<length (c # r # rs). ?n (pickCandidate h c rs) \<le> ?n ((c # r # rs) ! j)"
      proof (intro allI impI)
        fix j assume j: "j < length (c # r # rs)"
        show "?n (pickCandidate h c rs) \<le> ?n ((c # r # rs) ! j)"
        proof (cases j)
          case 0 with le show ?thesis by simp
        next
          case (Suc m)
          show ?thesis
          proof (cases m)
            case 0 with \<open>j = Suc m\<close> lt False show ?thesis by simp
          next
            case (Suc m')
            with \<open>j = Suc m\<close> j i(4) show ?thesis by (auto dest: spec [of _ "Suc m'"])
          qed
        qed
      qed
      show ?thesis unfolding pc
        by (rule exI [of _ "Suc i"]) (use i(1,2) Suc a b in simp)
    qed
  qed
qed

lemma count_list_remove1:
  "count_list (remove1 r us) q = (if q = r \<and> r \<in> set us then count_list us q - 1 else count_list us q)"
  by (induction us) auto

lemma count_list_fold_remove1:
  "distinct D \<Longrightarrow> set D \<subseteq> set us \<Longrightarrow>
     count_list (fold remove1 D us) q = (if q \<in> set D then count_list us q - 1 else count_list us q)"
proof (induction D arbitrary: us)
  case Nil
  then show ?case by simp
next
  case (Cons r D)
  from Cons.prems have r: "r \<in> set us" and d: "distinct D" and nr: "r \<notin> set D" by auto
  have sub: "set D \<subseteq> set (remove1 r us)"
  proof
    fix q assume q: "q \<in> set D"
    with nr have "q \<noteq> r" by auto
    moreover from q Cons.prems have "q \<in> set us" by auto
    ultimately show "q \<in> set (remove1 r us)" by (simp add: in_set_remove1)
  qed
  show ?case
    using Cons.IH [OF d sub] r nr by (auto simp: count_list_remove1)
qed

lemma step_drain:
  assumes "drained (store s) (unsolvedSegments s) \<noteq> []"
  shows "CapacitySegmentToPointSolver_step s =
     (let s' = s\<lparr>store := (\<lambda>q. if q \<in> set (unsolvedSegments s) \<and> pendingSingle (store s) q
                               then assignCenter (store s q) else store s q),
                  unsolvedSegments := fold remove1 (drained (store s) (unsolvedSegments s)) (unsolvedSegments s),
                  solvedSegments := solvedSegments s @ drained (store s) (unsolvedSegments s)\<rparr>
      in if unsolvedSegments s' = [] then s'\<lparr>solved := True\<rparr> else s')"
proof -
  have "fold (\<lambda>r us. splice1 (indexOf us r) us) (drained (store s) (unsolvedSegments s)) (unsolvedSegments s)
        = fold remove1 (drained (store s) (unsolvedSegments s)) (unsolvedSegments s)"
    using fold_splice_remove1 [of "drained (store s) (unsolvedSegments s)" "unsolvedSegments s"]
    by (simp add: drained_def)
  then show ?thesis
    using assms by (simp add: CapacitySegmentToPointSolver_step_def phaseA_char Let_def)
qed

lemma phaseA_idle:
  assumes "drained (store s) rs = []"
  shows "phaseA rs (s, updated) = (s, updated)"
proof -
  from assms have "\<forall>r\<in>set rs. \<not> pendingSingle (store s) r" by (simp add: drained_Nil_iff)
  then have "(\<lambda>q. if q \<in> set rs \<and> pendingSingle (store s) q then assignCenter (store s q) else store s q) = store s"
    by (auto simp: fun_eq_iff)
  with assms show ?thesis by (simp add: phaseA_char)
qed

lemma candidate_first_min:
  assumes "us \<noteq> []" and c_def: "c = pickCandidate h (us ! 0) us"
  shows "\<exists>i<length us. us ! i = c
      \<and> (\<forall>j<i. length (connectionNames (h c)) < length (connectionNames (h (us ! j))))
      \<and> (\<forall>j<length us. length (connectionNames (h c)) \<le> length (connectionNames (h (us ! j))))"
proof -
  from assms(1) obtain a rest where us: "us = a # rest" by (cases us) auto
  have "c = pickCandidate h a rest" by (simp add: c_def us)
  with pickCandidate_first_min [of a rest h] show ?thesis by (simp add: us)
qed

lemma candidate_mem: "us \<noteq> [] \<Longrightarrow> pickCandidate h (us ! 0) us \<in> set us"
  using candidate_first_min [of us _ h, OF _ refl] by (metis nth_mem)

lemma step_fallback:
  assumes "unsolvedSegments s \<noteq> []" and "drained (store s) (unsolvedSegments s) = []"
  shows "CapacitySegmentToPointSolver_step s =
     (let c = pickCandidate (store s) (unsolvedSegments s ! 0) (unsolvedSegments s);
          s' = s\<lparr>store := (store s)(c := (store s c)\<lparr>assignedPoints := Some (fallbackAssignment (store s c))\<rparr>),
                  unsolvedSegments := remove1 c (unsolvedSegments s),
                  solvedSegments := solvedSegments s @ [c]\<rparr>
      in if unsolvedSegments s' = [] then s'\<lparr>solved := True\<rparr> else s')"
  using assms candidate_mem [OF assms(1), of "store s"]
  by (simp add: CapacitySegmentToPointSolver_step_def phaseA_idle phaseB_def moveToSolved_def
      Let_def splice1_indexOf)

lemma step_empty:
  "unsolvedSegments s = [] \<Longrightarrow> CapacitySegmentToPointSolver_step s = s\<lparr>solved := True\<rparr>"
  by (simp add: CapacitySegmentToPointSolver_step_def)

lemma fallbackAssignment_names: "map connectionName (fallbackAssignment seg) = sort (connectionNames seg)"
proof -
  have "map (\<lambda>idx. sort (connectionNames seg) ! idx) [0..<length (sort (connectionNames seg))]
        = sort (connectionNames seg)"
    by (rule map_nth)
  then show ?thesis
    by (simp add: fallbackAssignment_def Let_def o_def)
qed

lemma fallbackAssignment_length: "length (fallbackAssignment seg) = length (connectionNames seg)"
  by (simp add: fallbackAssignment_def Let_def)

lemma fallbackAssignment_point:
  assumes "i < length (connectionNames seg)"
  shows "point (fallbackAssignment seg ! i) =
     \<lparr>x = x (start seg) + (x (end' seg) - x (start seg)) * (real (i + 1) / real (length (connectionNames seg) + 1)),
      y = y (start seg) + (y (end' seg) - y (start seg)) * (real (i + 1) / real (length (connectionNames seg) + 1)),
      z = first (availableZ seg)\<rparr>"
proof -
  let ?n = "length (connectionNames seg)"
  have "[1..<?n + 1] ! i = 1 + i" using assms by (intro nth_upt) simp
  moreover have "i < length [1..<?n + 1]" using assms by simp
  ultimately have "fallbackPoints seg ?n ! i =
     \<lparr>x = x (start seg) + (x (end' seg) - x (start seg)) * (real (i + 1) / real (?n + 1)),
      y = y (start seg) + (y (end' seg) - y (start seg)) * (real (i + 1) / real (?n + 1)),
      z = first (availableZ seg)\<rparr>"
    unfolding fallbackPoints_def Let_def by (simp only: nth_map) (simp add: add.commute)
  then show ?thesis using assms
    by (simp add: fallbackAssignment_def Let_def)
qed

lemma step_decreases:
  assumes "unsolvedSegments s \<noteq> []"
  shows "length (unsolvedSegments (CapacitySegmentToPointSolver_step s)) < length (unsolvedSegments s)
       \<and> length (solvedSegments s) < length (solvedSegments (CapacitySegmentToPointSolver_step s))"
proof (cases "drained (store s) (unsolvedSegments s) = []")
  case True
  from candidate_mem [OF assms, of "store s"] have "length (remove1 (pickCandidate (store s) (unsolvedSegments s ! 0) (unsolvedSegments s)) (unsolvedSegments s)) < length (unsolvedSegments s)"
    using assms by (simp add: length_remove1)
  then show ?thesis
    using assms by (auto simp: step_fallback [OF assms True] Let_def)
next
  case False
  let ?D = "drained (store s) (unsolvedSegments s)"
  have "length (fold remove1 ?D (unsolvedSegments s)) + length ?D = length (unsolvedSegments s)"
    using fold_splice_remove1 [of ?D "unsolvedSegments s"] by (simp add: drained_def)
  moreover from False have "length ?D > 0" by simp
  ultimately have "length (fold remove1 ?D (unsolvedSegments s)) < length (unsolvedSegments s)"
    by linarith
  moreover from False have "length (solvedSegments s) < length (solvedSegments s @ ?D)" by simp
  ultimately show ?thesis
    using assms by (auto simp: step_drain [OF False] Let_def)
qed

lemma step_solved_iff:
  "solved (CapacitySegmentToPointSolver_step s) \<longleftrightarrow> solved s \<or> unsolvedSegments (CapacitySegmentToPointSolver_step s) = []"
proof (cases "unsolvedSegments s = []")
  case True
  then show ?thesis by (simp add: step_empty)
next
  case False
  show ?thesis
  proof (cases "drained (store s) (unsolvedSegments s) = []")
    case True
    then show ?thesis by (simp add: step_fallback [OF False True] Let_def)
  next
    case F: False
    then show ?thesis by (simp add: step_drain [OF F] Let_def)
  qed
qed

lemma step_failed: "failed (CapacitySegmentToPointSolver_step s) = failed s"
proof (cases "unsolvedSegments s = []")
  case True
  then show ?thesis by (simp add: step_empty)
next
  case False
  show ?thesis
  proof (cases "drained (store s) (unsolvedSegments s) = []")
    case True
    then show ?thesis by (simp add: step_fallback [OF False True] Let_def)
  next
    case F: False
    then show ?thesis by (simp add: step_drain [OF F] Let_def)
  qed
qed

lemma reaches_solved:
  "\<not> failed s \<Longrightarrow> length (unsolvedSegments s) \<le> k \<Longrightarrow> 0 < k \<Longrightarrow> solved ((segmentSolverStep ^^ k) s)"
proof (induction k arbitrary: s)
  case 0
  then show ?case by simp
next
  case (Suc k)
  have stay: "\<And>n t. solved t \<Longrightarrow> (segmentSolverStep ^^ n) t = t"
  proof -
    fix n :: nat and t :: CapacitySegmentToPointSolver
    assume "solved t"
    then show "(segmentSolverStep ^^ n) t = t"
      by (induction n) (simp_all add: segmentSolverStep_def)
  qed
  have unf: "(segmentSolverStep ^^ Suc k) s = (segmentSolverStep ^^ k) (segmentSolverStep s)"
    by (simp add: funpow_swap1)
  show ?case
  proof (cases "solved s")
    case True
    with stay [of s "Suc k"] show ?thesis by simp
  next
    case False
    let ?t = "CapacitySegmentToPointSolver_step s"
    from False Suc.prems(1) have st: "segmentSolverStep s = ?t" by (simp add: segmentSolverStep_def)
    have nf: "\<not> failed ?t" using Suc.prems(1) by (simp add: step_failed)
    have len: "length (unsolvedSegments ?t) \<le> k"
    proof (cases "unsolvedSegments s = []")
      case True
      then show ?thesis by (simp add: step_empty)
    next
      case False
      from step_decreases [OF this] Suc.prems(2) show ?thesis by simp
    qed
    show ?thesis
    proof (cases k)
      case 0
      with len have "unsolvedSegments ?t = []" by simp
      then have "solved ?t" by (simp add: step_solved_iff)
      with 0 st show ?thesis by simp
    next
      case (Suc k')
      with Suc.IH [OF nf len] have "solved ((segmentSolverStep ^^ k) ?t)" by simp
      then show ?thesis by (simp only: unf st)
    qed
  qed
qed

lemma count_list_distinct: "distinct xs \<Longrightarrow> count_list xs a = (if a \<in> set xs then 1 else 0)"
  by (induction xs) auto

lemma upt_three: "[1..<3 + 1] = [1, 2, Suc 2]" "[0..<3] = [0, 1, 2]"
  by (simp_all add: upt_conv_Cons numeral_eq_Suc)

text \<open>
  C1. When the first loop finds no pending single and unassigned segments remain, the step
  runs the fallback: the candidate \<open>c\<close> is the first segment of the array with the
  fewest connection names; the step writes to \<open>c\<close> alone, giving it one point per
  connection name, the names in sorted order, the \<open>i\<close>-th (counted from 1) at fraction
  \<open>i / (n + 1)\<close> along the vector from start to end with \<open>z = availableZ[0]\<close>;
  and it moves \<open>c\<close>, and nothing else, from the unassigned to the assigned array. For
  names C, A, B on the segment from (0,0) to (9,0) the points are (2.25,0), (4.5,0) and
  (6.75,0), for A, B and C.
\<close>

theorem fallback_phase_assignment:
  assumes ne: "unsolvedSegments s \<noteq> []"
    and none: "\<forall>r\<in>set (unsolvedSegments s). \<not> pendingSingle (store s) r"
    and c: "c = pickCandidate (store s) (unsolvedSegments s ! 0) (unsolvedSegments s)"
    and s': "s' = CapacitySegmentToPointSolver_step s"
    and n: "n = length (connectionNames (store s c))"
  shows "(\<exists>i<length (unsolvedSegments s). unsolvedSegments s ! i = c
            \<and> (\<forall>j<i. n < length (connectionNames (store s (unsolvedSegments s ! j))))
            \<and> (\<forall>j<length (unsolvedSegments s). n \<le> length (connectionNames (store s (unsolvedSegments s ! j)))))
       \<and> unsolvedSegments s' = remove1 c (unsolvedSegments s)
       \<and> solvedSegments s' = solvedSegments s @ [c]
       \<and> (\<forall>q. q \<noteq> c \<longrightarrow> store s' q = store s q)
       \<and> (\<exists>aps. store s' c = (store s c)\<lparr>assignedPoints := Some aps\<rparr>
             \<and> map connectionName aps = sort (connectionNames (store s c))
             \<and> (\<forall>i<n. point (aps ! i) =
                   \<lparr>x = x (start (store s c)) + (x (end' (store s c)) - x (start (store s c))) * (real (i + 1) / real (n + 1)),
                    y = y (start (store s c)) + (y (end' (store s c)) - y (start (store s c))) * (real (i + 1) / real (n + 1)),
                    z = first (availableZ (store s c))\<rparr>))
       \<and> (connectionNames (store s c) = [''C'', ''A'', ''B'']
            \<and> start (store s c) = \<lparr>x = 0, y = 0\<rparr> \<and> end' (store s c) = \<lparr>x = 9, y = 0\<rparr> \<longrightarrow>
          assignedPoints (store s' c) = Some
            [\<lparr>connectionName = ''A'', point = \<lparr>x = 2.25, y = 0, z = first (availableZ (store s c))\<rparr>\<rparr>,
             \<lparr>connectionName = ''B'', point = \<lparr>x = 4.5, y = 0, z = first (availableZ (store s c))\<rparr>\<rparr>,
             \<lparr>connectionName = ''C'', point = \<lparr>x = 6.75, y = 0, z = first (availableZ (store s c))\<rparr>\<rparr>])"
proof -
  from none have d: "drained (store s) (unsolvedSegments s) = []" by (simp add: drained_Nil_iff)
  note st = step_fallback [OF ne d, folded c]
  have sel: "\<exists>i<length (unsolvedSegments s). unsolvedSegments s ! i = c
            \<and> (\<forall>j<i. n < length (connectionNames (store s (unsolvedSegments s ! j))))
            \<and> (\<forall>j<length (unsolvedSegments s). n \<le> length (connectionNames (store s (unsolvedSegments s ! j))))"
    unfolding n by (rule candidate_first_min [OF ne c])
  have us: "unsolvedSegments s' = remove1 c (unsolvedSegments s)"
    and ss: "solvedSegments s' = solvedSegments s @ [c]"
    and sto: "store s' = (store s)(c := (store s c)\<lparr>assignedPoints := Some (fallbackAssignment (store s c))\<rparr>)"
    by (simp_all add: s' st Let_def c)
  have other: "\<forall>q. q \<noteq> c \<longrightarrow> store s' q = store s q" by (simp add: sto)
  have pts: "\<exists>aps. store s' c = (store s c)\<lparr>assignedPoints := Some aps\<rparr>
             \<and> map connectionName aps = sort (connectionNames (store s c))
             \<and> (\<forall>i<n. point (aps ! i) =
                   \<lparr>x = x (start (store s c)) + (x (end' (store s c)) - x (start (store s c))) * (real (i + 1) / real (n + 1)),
                    y = y (start (store s c)) + (y (end' (store s c)) - y (start (store s c))) * (real (i + 1) / real (n + 1)),
                    z = first (availableZ (store s c))\<rparr>)"
    by (rule exI [of _ "fallbackAssignment (store s c)"])
      (simp add: sto fallbackAssignment_names fallbackAssignment_point n)
  have ex: "connectionNames (store s c) = [''C'', ''A'', ''B'']
            \<and> start (store s c) = \<lparr>x = 0, y = 0\<rparr> \<and> end' (store s c) = \<lparr>x = 9, y = 0\<rparr> \<longrightarrow>
          assignedPoints (store s' c) = Some
            [\<lparr>connectionName = ''A'', point = \<lparr>x = 2.25, y = 0, z = first (availableZ (store s c))\<rparr>\<rparr>,
             \<lparr>connectionName = ''B'', point = \<lparr>x = 4.5, y = 0, z = first (availableZ (store s c))\<rparr>\<rparr>,
             \<lparr>connectionName = ''C'', point = \<lparr>x = 6.75, y = 0, z = first (availableZ (store s c))\<rparr>\<rparr>]"
    by (simp add: sto fallbackAssignment_def fallbackPoints_def Let_def upt_three)
  from sel us ss other pts ex show ?thesis by blast
qed

theorem fallback_phase_assignment_witness:
  "unsolvedSegments fallbackEngine = [0, 1, 2]
   \<and> pickCandidate (store fallbackEngine) (unsolvedSegments fallbackEngine ! 0) (unsolvedSegments fallbackEngine) = 1
   \<and> unsolvedSegments (CapacitySegmentToPointSolver_step fallbackEngine) = [0, 2]
   \<and> solvedSegments (CapacitySegmentToPointSolver_step fallbackEngine) = [1]
   \<and> assignedPoints (store (CapacitySegmentToPointSolver_step fallbackEngine) 1) = Some
            [\<lparr>connectionName = ''A'', point = \<lparr>x = 2.25, y = 0, z = Some 0\<rparr>\<rparr>,
             \<lparr>connectionName = ''B'', point = \<lparr>x = 4.5, y = 0, z = Some 0\<rparr>\<rparr>,
             \<lparr>connectionName = ''C'', point = \<lparr>x = 6.75, y = 0, z = Some 0\<rparr>\<rparr>]"
proof -
  have ne: "unsolvedSegments fallbackEngine \<noteq> []"
    by (simp add: fallbackEngine_def newCapacitySegmentToPointSolver_def)
  have none: "\<forall>r\<in>set (unsolvedSegments fallbackEngine). \<not> pendingSingle (store fallbackEngine) r"
    by (simp add: fallbackEngine_def newCapacitySegmentToPointSolver_def pendingSingle_def
        fallbackStore_def segCAB_def segWide_def)
  have c: "(1::ref) = pickCandidate (store fallbackEngine) (unsolvedSegments fallbackEngine ! 0) (unsolvedSegments fallbackEngine)"
    by (simp add: fallbackEngine_def newCapacitySegmentToPointSolver_def
        fallbackStore_def segCAB_def segWide_def)
  show ?thesis
    using fallback_phase_assignment [OF ne none c refl refl] c
    by (simp add: fallbackEngine_def newCapacitySegmentToPointSolver_def
        fallbackStore_def segCAB_def segWide_def first_def)
qed

text \<open>
  C2. A segment of the unassigned array with exactly one connection name, not yet carrying
  its points, is assigned by one step: its one connection gets the midpoint of start and
  end with \<open>z = availableZ[0]\<close>, the segment is pushed onto the assigned array and one
  occurrence of it leaves the unassigned array (none remains when the array holds each
  object once). The statement is about every such segment, so all of them are moved by the
  same step; a segment that is not a pending single is left as it was.
\<close>

theorem single_connection_midpoint:
  assumes r: "r \<in> set (unsolvedSegments s)"
    and one: "length (connectionNames (store s r)) = 1"
    and fresh: "\<not> alreadyProcessed (store s r)"
    and s': "s' = CapacitySegmentToPointSolver_step s"
  shows "store s' r = (store s r)\<lparr>assignedPoints := Some
             [\<lparr>connectionName = connectionNames (store s r) ! 0,
               point = \<lparr>x = (x (start (store s r)) + x (end' (store s r))) / 2,
                        y = (y (start (store s r)) + y (end' (store s r))) / 2,
                        z = first (availableZ (store s r))\<rparr>\<rparr>]\<rparr>
       \<and> r \<in> set (solvedSegments s')
       \<and> count_list (solvedSegments s') r = count_list (solvedSegments s) r + 1
       \<and> count_list (unsolvedSegments s') r + 1 = count_list (unsolvedSegments s) r
       \<and> (distinct (unsolvedSegments s) \<longrightarrow> r \<notin> set (unsolvedSegments s'))
       \<and> (\<forall>q. \<not> pendingSingle (store s) q \<longrightarrow> store s' q = store s q)"
proof -
  let ?D = "drained (store s) (unsolvedSegments s)"
  from one fresh have p: "pendingSingle (store s) r" by (simp add: pendingSingle_def)
  with r have rD: "r \<in> set ?D" by (simp add: drained_def)
  then have ne: "?D \<noteq> []" by auto
  have dD: "distinct ?D" and sub: "set ?D \<subseteq> set (unsolvedSegments s)"
    by (simp_all add: drained_def)
  note st = step_drain [OF ne]
  have sto: "store s' = (\<lambda>q. if q \<in> set (unsolvedSegments s) \<and> pendingSingle (store s) q
                               then assignCenter (store s q) else store s q)"
    and us: "unsolvedSegments s' = fold remove1 ?D (unsolvedSegments s)"
    and ss: "solvedSegments s' = solvedSegments s @ ?D"
    by (simp_all add: s' st Let_def)
  have a: "store s' r = (store s r)\<lparr>assignedPoints := Some
             [\<lparr>connectionName = connectionNames (store s r) ! 0,
               point = \<lparr>x = (x (start (store s r)) + x (end' (store s r))) / 2,
                        y = (y (start (store s r)) + y (end' (store s r))) / 2,
                        z = first (availableZ (store s r))\<rparr>\<rparr>]\<rparr>"
    using r p by (simp add: sto assignCenter_def centerOf_def)
  have b: "r \<in> set (solvedSegments s')" using rD by (simp add: ss)
  have c: "count_list (solvedSegments s') r = count_list (solvedSegments s) r + 1"
    using rD dD by (simp add: ss count_list_distinct)
  have pos: "0 < count_list (unsolvedSegments s) r" using r count_list_0_iff [of "unsolvedSegments s" r] by (cases "count_list (unsolvedSegments s) r") auto
  have d: "count_list (unsolvedSegments s') r + 1 = count_list (unsolvedSegments s) r"
    using pos rD by (simp add: us count_list_fold_remove1 [OF dD sub])
  have e: "distinct (unsolvedSegments s) \<longrightarrow> r \<notin> set (unsolvedSegments s')"
  proof
    assume "distinct (unsolvedSegments s)"
    with r have "count_list (unsolvedSegments s) r = 1" by (simp add: count_list_distinct)
    with d have "count_list (unsolvedSegments s') r = 0" by simp
    then show "r \<notin> set (unsolvedSegments s')" by (simp add: count_list_0_iff)
  qed
  have f: "\<forall>q. \<not> pendingSingle (store s) q \<longrightarrow> store s' q = store s q"
    by (simp add: sto)
  from a b c d e f show ?thesis by blast
qed

theorem single_connection_midpoint_witness:
  "unsolvedSegments mixedEngine = [0, 1, 2]
   \<and> store (CapacitySegmentToPointSolver_step mixedEngine) 0 = segSingle\<lparr>assignedPoints := Some
        [\<lparr>connectionName = ''net1'', point = \<lparr>x = 2, y = 1, z = Some 1\<rparr>\<rparr>]\<rparr>
   \<and> store (CapacitySegmentToPointSolver_step mixedEngine) 2 = segSingle\<lparr>assignedPoints := Some
        [\<lparr>connectionName = ''net1'', point = \<lparr>x = 2, y = 1, z = Some 1\<rparr>\<rparr>]\<rparr>
   \<and> store (CapacitySegmentToPointSolver_step mixedEngine) 1 = segCAB
   \<and> 0 \<in> set (solvedSegments (CapacitySegmentToPointSolver_step mixedEngine))
   \<and> 2 \<in> set (solvedSegments (CapacitySegmentToPointSolver_step mixedEngine))
   \<and> 0 \<notin> set (unsolvedSegments (CapacitySegmentToPointSolver_step mixedEngine))
   \<and> 2 \<notin> set (unsolvedSegments (CapacitySegmentToPointSolver_step mixedEngine))"
proof -
  have us: "unsolvedSegments mixedEngine = [0, 1, 2]" and st: "store mixedEngine = mixedStore"
    by (simp_all add: mixedEngine_def newCapacitySegmentToPointSolver_def)
  have p0: "\<not> alreadyProcessed (store mixedEngine 0)" "length (connectionNames (store mixedEngine 0)) = 1"
    and p2: "\<not> alreadyProcessed (store mixedEngine 2)" "length (connectionNames (store mixedEngine 2)) = 1"
    and p1: "\<not> pendingSingle (store mixedEngine) 1"
    by (simp_all add: st mixedStore_def segSingle_def segCAB_def alreadyProcessed_def pendingSingle_def)
  have m0: "0 \<in> set (unsolvedSegments mixedEngine)" and m2: "2 \<in> set (unsolvedSegments mixedEngine)"
    and d: "distinct (unsolvedSegments mixedEngine)"
    by (simp_all add: us)
  from single_connection_midpoint [OF m0 p0(2) p0(1) refl]
    single_connection_midpoint [OF m2 p2(2) p2(1) refl] p1 d us
  show ?thesis
    by (simp add: st mixedStore_def segSingle_def first_def)
qed

lemma new_fields:
  "unsolvedSegments (newCapacitySegmentToPointSolver h segments ns) = segments"
  "solvedSegments (newCapacitySegmentToPointSolver h segments ns) = []"
  "store (newCapacitySegmentToPointSolver h segments ns) = h"
  "\<not> solved (newCapacitySegmentToPointSolver h segments ns)"
  "\<not> failed (newCapacitySegmentToPointSolver h segments ns)"
  by (simp_all add: newCapacitySegmentToPointSolver_def)

lemma solved_stays: "solved t \<Longrightarrow> (segmentSolverStep ^^ n) t = t"
  by (induction n) (simp_all add: segmentSolverStep_def)

lemma reaches_solved_later:
  assumes "\<not> failed s" and "length (unsolvedSegments s) \<le> m" and "0 < m" and "m \<le> k"
  shows "solved ((segmentSolverStep ^^ k) s)"
proof -
  from assms(4) obtain d where k: "k = d + m" by (metis le_add_diff_inverse2)
  have "solved ((segmentSolverStep ^^ m) s)" by (rule reaches_solved [OF assms(1-3)])
  then have "(segmentSolverStep ^^ d) ((segmentSolverStep ^^ m) s) = (segmentSolverStep ^^ m) s"
    by (rule solved_stays)
  then have "(segmentSolverStep ^^ k) s = (segmentSolverStep ^^ m) s"
    by (simp add: k funpow_add)
  with \<open>solved ((segmentSolverStep ^^ m) s)\<close> show ?thesis by simp
qed

text \<open>
  C3, as the code has it. A call to \<open>step\<close> made while the engine is neither solved nor
  failed and unassigned segments remain assigns at least one segment: the unassigned array
  gets strictly shorter and the assigned one strictly longer, and the engine is solved after
  the call exactly when nothing is left unassigned. From construction the engine is solved
  after \<open>max 1 n\<close> calls for \<open>n\<close> input segments, and stays solved. The empty
  collection is the one case that needs more calls than it has segments: the constructor
  leaves \<open>solved\<close> false, and the first call assigns nothing and sets it.
\<close>

theorem step_progress_and_termination:
  "(\<not> solved s \<and> \<not> failed s \<and> unsolvedSegments s \<noteq> [] \<longrightarrow>
       length (unsolvedSegments (segmentSolverStep s)) < length (unsolvedSegments s)
       \<and> length (solvedSegments s) < length (solvedSegments (segmentSolverStep s))
       \<and> (solved (segmentSolverStep s) \<longleftrightarrow> unsolvedSegments (segmentSolverStep s) = []))
   \<and> (\<forall>k\<ge>max 1 (length segments).
         solved ((segmentSolverStep ^^ k) (newCapacitySegmentToPointSolver h segments ns)))
   \<and> (segments = [] \<longrightarrow>
         \<not> solved (newCapacitySegmentToPointSolver h segments ns)
         \<and> segmentSolverStep (newCapacitySegmentToPointSolver h segments ns)
             = (newCapacitySegmentToPointSolver h segments ns)\<lparr>solved := True\<rparr>)"
proof (intro conjI impI allI)
  assume a: "\<not> solved s \<and> \<not> failed s \<and> unsolvedSegments s \<noteq> []"
  then have st: "segmentSolverStep s = CapacitySegmentToPointSolver_step s"
    by (simp add: segmentSolverStep_def)
  from a have ne: "unsolvedSegments s \<noteq> []" by simp
  from step_decreases [OF ne]
  show "length (unsolvedSegments (segmentSolverStep s)) < length (unsolvedSegments s)"
    and "length (solvedSegments s) < length (solvedSegments (segmentSolverStep s))"
    by (simp_all add: st)
  from a step_solved_iff [of s]
  show "solved (segmentSolverStep s) \<longleftrightarrow> unsolvedSegments (segmentSolverStep s) = []"
    by (simp add: st)
next
  fix k assume "max 1 (length segments) \<le> k"
  then show "solved ((segmentSolverStep ^^ k) (newCapacitySegmentToPointSolver h segments ns))"
    by (intro reaches_solved_later [where m = "max 1 (length segments)"]) (simp_all add: new_fields)
next
  assume "segments = []"
  then show "\<not> solved (newCapacitySegmentToPointSolver h segments ns)"
    and "segmentSolverStep (newCapacitySegmentToPointSolver h segments ns)
             = (newCapacitySegmentToPointSolver h segments ns)\<lparr>solved := True\<rparr>"
    by (simp_all add: segmentSolverStep_def new_fields step_empty)
qed

theorem step_progress_and_termination_witness:
  "\<not> solved fallbackEngine \<and> \<not> failed fallbackEngine \<and> unsolvedSegments fallbackEngine = [0, 1, 2]
   \<and> length (unsolvedSegments (segmentSolverStep fallbackEngine)) < 3
   \<and> 0 < length (solvedSegments (segmentSolverStep fallbackEngine))
   \<and> solved ((segmentSolverStep ^^ 3) fallbackEngine)
   \<and> \<not> solved emptyEngine
   \<and> solved (segmentSolverStep emptyEngine)"
  using step_progress_and_termination [of fallbackEngine "[0, 1, 2]" fallbackStore "[]"]
    step_progress_and_termination [of fallbackEngine "[]" fallbackStore "[]"]
  by (simp add: fallbackEngine_def emptyEngine_def new_fields)

text \<open>
  C3, as the claim states it, fails on the empty collection: the engine is not solved after
  zero calls, and its first call neither assigns a segment nor shortens the unassigned
  array.
\<close>

theorem empty_collection_counterexample:
  "\<not> solved emptyEngine \<and> \<not> failed emptyEngine
   \<and> unsolvedSegments emptyEngine = []
   \<and> solvedSegments (segmentSolverStep emptyEngine) = solvedSegments emptyEngine
   \<and> \<not> length (unsolvedSegments (segmentSolverStep emptyEngine)) < length (unsolvedSegments emptyEngine)
   \<and> \<not> solved ((segmentSolverStep ^^ length (unsolvedSegments emptyEngine)) emptyEngine)"
  by (simp add: emptyEngine_def new_fields segmentSolverStep_def step_empty)

text \<open>
  C10. A segment \<open>r\<close> of the unassigned array with no connection name is left alone by
  the first loop of a step (\<open>sA\<close> is the state after that loop): it is not written to and
  stays where it is. When no segment of the array has exactly one connection name, the
  step's fallback picks the first segment without connection names, gives it the empty list
  of points and moves it to the assigned array, so the unassigned array gets shorter. An
  engine built on a collection that holds such a segment is solved after as many calls as
  it has segments.
\<close>

theorem empty_connection_segment:
  assumes r: "r \<in> set (unsolvedSegments s)"
    and empty: "connectionNames (store s r) = []"
    and c: "c = pickCandidate (store s) (unsolvedSegments s ! 0) (unsolvedSegments s)"
    and s': "s' = CapacitySegmentToPointSolver_step s"
    and sA: "sA = fst (phaseA (unsolvedSegments s) (s, False))"
  shows "store sA r = store s r
       \<and> count_list (solvedSegments sA) r = count_list (solvedSegments s) r
       \<and> count_list (unsolvedSegments sA) r = count_list (unsolvedSegments s) r
       \<and> ((\<forall>q\<in>set (unsolvedSegments s). length (connectionNames (store s q)) \<noteq> 1) \<longrightarrow>
             connectionNames (store s c) = []
           \<and> (\<exists>i<length (unsolvedSegments s). unsolvedSegments s ! i = c
                 \<and> (\<forall>j<i. connectionNames (store s (unsolvedSegments s ! j)) \<noteq> []))
           \<and> store s' c = (store s c)\<lparr>assignedPoints := Some []\<rparr>
           \<and> solvedSegments s' = solvedSegments s @ [c]
           \<and> unsolvedSegments s' = remove1 c (unsolvedSegments s)
           \<and> length (unsolvedSegments s') < length (unsolvedSegments s))
       \<and> (\<forall>h segments ns. (\<exists>q\<in>set segments. connectionNames (h q) = []) \<longrightarrow>
             solved ((segmentSolverStep ^^ length segments) (newCapacitySegmentToPointSolver h segments ns)))"
proof -
  let ?us = "unsolvedSegments s"
  let ?D = "drained (store s) ?us"
  from r have ne: "?us \<noteq> []" by auto
  from empty have np: "\<not> pendingSingle (store s) r" by (simp add: pendingSingle_def)
  then have rD: "r \<notin> set ?D" by (simp add: drained_def)
  have dD: "distinct ?D" and sub: "set ?D \<subseteq> set ?us" by (simp_all add: drained_def)
  have fs: "fold (\<lambda>r us. splice1 (indexOf us r) us) ?D ?us = fold remove1 ?D ?us"
    using fold_splice_remove1 [OF dD sub] by simp
  have a1: "store sA r = store s r" using np by (simp add: sA phaseA_char)
  have a2: "count_list (solvedSegments sA) r = count_list (solvedSegments s) r"
    using rD by (simp add: sA phaseA_char)
  have a3: "count_list (unsolvedSegments sA) r = count_list (unsolvedSegments s) r"
    using rD by (simp add: sA phaseA_char fs count_list_fold_remove1 [OF dD sub])
  have b: "(\<forall>q\<in>set ?us. length (connectionNames (store s q)) \<noteq> 1) \<longrightarrow>
             connectionNames (store s c) = []
           \<and> (\<exists>i<length ?us. ?us ! i = c \<and> (\<forall>j<i. connectionNames (store s (?us ! j)) \<noteq> []))
           \<and> store s' c = (store s c)\<lparr>assignedPoints := Some []\<rparr>
           \<and> solvedSegments s' = solvedSegments s @ [c]
           \<and> unsolvedSegments s' = remove1 c ?us
           \<and> length (unsolvedSegments s') < length ?us"
  proof
    assume none: "\<forall>q\<in>set ?us. length (connectionNames (store s q)) \<noteq> 1"
    then have d: "?D = []" by (simp add: drained_Nil_iff pendingSingle_def)
    note st = step_fallback [OF ne d, folded c]
    from candidate_first_min [OF ne c] obtain i where i: "i < length ?us" "?us ! i = c"
      "\<forall>j<i. length (connectionNames (store s c)) < length (connectionNames (store s (?us ! j)))"
      "\<forall>j<length ?us. length (connectionNames (store s c)) \<le> length (connectionNames (store s (?us ! j)))"
      by blast
    from r obtain k where k: "k < length ?us" "?us ! k = r" by (auto simp: in_set_conv_nth)
    with i(4) empty have c0: "connectionNames (store s c) = []" by fastforce
    have first: "\<exists>i<length ?us. ?us ! i = c \<and> (\<forall>j<i. connectionNames (store s (?us ! j)) \<noteq> [])"
      using i(1,2,3) c0 by (intro exI [of _ i]) auto
    have fa: "fallbackAssignment (store s c) = []"
      by (simp add: fallbackAssignment_def c0)
    have "store s' c = (store s c)\<lparr>assignedPoints := Some []\<rparr>"
      and "solvedSegments s' = solvedSegments s @ [c]"
      and "unsolvedSegments s' = remove1 c ?us"
      by (simp_all add: s' st Let_def fa)
    moreover have "length (unsolvedSegments s') < length ?us"
      using step_decreases [OF ne] by (simp add: s')
    ultimately show "connectionNames (store s c) = []
           \<and> (\<exists>i<length ?us. ?us ! i = c \<and> (\<forall>j<i. connectionNames (store s (?us ! j)) \<noteq> []))
           \<and> store s' c = (store s c)\<lparr>assignedPoints := Some []\<rparr>
           \<and> solvedSegments s' = solvedSegments s @ [c]
           \<and> unsolvedSegments s' = remove1 c ?us
           \<and> length (unsolvedSegments s') < length ?us"
      using c0 first by blast
  qed
  have t: "\<forall>h segments ns. (\<exists>q\<in>set segments. connectionNames (h q) = []) \<longrightarrow>
             solved ((segmentSolverStep ^^ length segments) (newCapacitySegmentToPointSolver h segments ns))"
  proof (intro allI impI)
    fix h :: "ref \<Rightarrow> Segment" and segments :: "ref list" and ns
    assume "\<exists>q\<in>set segments. connectionNames (h q) = []"
    then have "0 < length segments" by auto
    then show "solved ((segmentSolverStep ^^ length segments) (newCapacitySegmentToPointSolver h segments ns))"
      by (intro reaches_solved) (simp_all add: new_fields)
  qed
  from a1 a2 a3 b t show ?thesis by blast
qed

theorem empty_connection_segment_witness:
  "unsolvedSegments degenerateEngine = [0, 1]
   \<and> connectionNames (store degenerateEngine 1) = []
   \<and> pickCandidate (store degenerateEngine) (unsolvedSegments degenerateEngine ! 0) (unsolvedSegments degenerateEngine) = 1
   \<and> store (fst (phaseA (unsolvedSegments degenerateEngine) (degenerateEngine, False))) 1 = segEmpty
   \<and> store (CapacitySegmentToPointSolver_step degenerateEngine) 1 = segEmpty\<lparr>assignedPoints := Some []\<rparr>
   \<and> solvedSegments (CapacitySegmentToPointSolver_step degenerateEngine) = [1]
   \<and> unsolvedSegments (CapacitySegmentToPointSolver_step degenerateEngine) = [0]
   \<and> solved ((segmentSolverStep ^^ 2) degenerateEngine)"
proof -
  have us: "unsolvedSegments degenerateEngine = [0, 1]" and st: "store degenerateEngine = degenerateStore"
    and ss: "solvedSegments degenerateEngine = []"
    by (simp_all add: degenerateEngine_def new_fields)
  have m: "1 \<in> set (unsolvedSegments degenerateEngine)" by (simp add: us)
  have e: "connectionNames (store degenerateEngine 1) = []"
    by (simp add: st degenerateStore_def segEmpty_def)
  have c: "(1::ref) = pickCandidate (store degenerateEngine) (unsolvedSegments degenerateEngine ! 0) (unsolvedSegments degenerateEngine)"
    by (simp add: us st degenerateStore_def segEmpty_def segCAB_def)
  have none: "\<forall>q\<in>set (unsolvedSegments degenerateEngine). length (connectionNames (store degenerateEngine q)) \<noteq> 1"
    by (simp add: us st degenerateStore_def segEmpty_def segCAB_def)
  have ex: "\<exists>q\<in>set [0, 1]. connectionNames (degenerateStore q) = []"
    by (simp add: degenerateStore_def segEmpty_def)
  note th = empty_connection_segment [OF m e c refl refl]
  have s1: "store degenerateEngine (Suc 0) = segEmpty" by (simp add: st degenerateStore_def)
  from th have a: "store (fst (phaseA (unsolvedSegments degenerateEngine) (degenerateEngine, False))) 1
      = store degenerateEngine 1" by (rule conjunct1)
  from th none have b: "store (CapacitySegmentToPointSolver_step degenerateEngine) 1
        = (store degenerateEngine 1)\<lparr>assignedPoints := Some []\<rparr>
      \<and> solvedSegments (CapacitySegmentToPointSolver_step degenerateEngine) = solvedSegments degenerateEngine @ [1]
      \<and> unsolvedSegments (CapacitySegmentToPointSolver_step degenerateEngine) = remove1 1 (unsolvedSegments degenerateEngine)"
    by blast
  from th ex have t: "solved ((segmentSolverStep ^^ length [0::ref, 1]) (newCapacitySegmentToPointSolver degenerateStore [0, 1] []))"
    by blast
  have "length [0::ref, 1] = 2" by simp
  with t have t': "solved ((segmentSolverStep ^^ 2) degenerateEngine)"
    by (simp only: degenerateEngine_def)
  from a b t' c [symmetric] e show ?thesis
    by (simp add: us ss s1)
qed

lemma mapHas_iff: "mapHas m k \<longleftrightarrow> k \<in> set (map capacityMeshNodeId m)"
  by (auto simp: mapHas_def list_ex_iff)

lemma pushPortPoints_keys: "map capacityMeshNodeId (pushPortPoints k pts m) = map capacityMeshNodeId m"
  by (induction m) (auto simp: pushPortPoints_def)

lemma entryGroups_push:
  assumes e: "entryGroups s done e"
    and k: "k = ownerNodeId (store s r)"
  shows "entryGroups s (done @ [r])
     (if capacityMeshNodeId e = k then e\<lparr>portPoints := portPoints e @ segmentPortPoints (store s r)\<rparr> else e)"
proof (cases "capacityMeshNodeId e = k")
  case True
  with e k show ?thesis by (simp add: entryGroups_def)
next
  case False
  with e k show ?thesis by (simp add: entryGroups_def)
qed

lemma entryGroups_new:
  assumes "k \<notin> set (map (\<lambda>r. ownerNodeId (store s r)) done)" and "nodeMap s k = Some nd"
  shows "entryGroups s done
     \<lparr>capacityMeshNodeId = k, center = center nd, width = width nd, height = height nd, portPoints = []\<rparr>"
proof -
  from assms(1) have "filter (\<lambda>r. ownerNodeId (store s r) = k) done = []"
    by (auto simp: filter_empty_conv)
  with assms(2) show ?thesis by (simp add: entryGroups_def)
qed

lemma entryGroups_pushAll:
  assumes es: "\<forall>e\<in>set m. entryGroups s done e"
    and k: "k = ownerNodeId (store s r)"
  shows "\<forall>e\<in>set (pushPortPoints k (segmentPortPoints (store s r)) m). entryGroups s (done @ [r]) e"
proof
  fix e' assume "e' \<in> set (pushPortPoints k (segmentPortPoints (store s r)) m)"
  then have "\<exists>e\<in>set m. e' = (if capacityMeshNodeId e = k
                  then e\<lparr>portPoints := portPoints e @ segmentPortPoints (store s r)\<rparr> else e)"
    unfolding pushPortPoints_def set_map image_iff .
  then obtain e where e: "e \<in> set m"
    and e': "e' = (if capacityMeshNodeId e = k
                  then e\<lparr>portPoints := portPoints e @ segmentPortPoints (store s r)\<rparr> else e)"
    by blast
  from es e have "entryGroups s done e" by blast
  from entryGroups_push [OF this k] show "entryGroups s (done @ [r]) e'" unfolding e' .
qed

lemma groupsSegments_push:
  assumes g: "groupsSegments s done m"
    and k: "k = ownerNodeId (store s r)"
    and has: "mapHas m k"
  shows "groupsSegments s (done @ [r]) (pushPortPoints k (segmentPortPoints (store s r)) m)"
proof -
  from g have d: "distinct (map capacityMeshNodeId m)"
    and ks: "set (map capacityMeshNodeId m) = set (map (\<lambda>r. ownerNodeId (store s r)) done)"
    and es: "\<forall>e\<in>set m. entryGroups s done e"
    by (simp_all add: groupsSegments_def)
  from has have "k \<in> set (map capacityMeshNodeId m)" by (simp add: mapHas_iff)
  with ks k have ks': "set (map capacityMeshNodeId m) = set (map (\<lambda>r. ownerNodeId (store s r)) (done @ [r]))"
    by auto
  have es': "\<forall>e\<in>set (pushPortPoints k (segmentPortPoints (store s r)) m). entryGroups s (done @ [r]) e"
    using es by (rule entryGroups_pushAll [OF _ k])
  from d ks' es' show ?thesis
    unfolding groupsSegments_def pushPortPoints_keys by blast
qed

lemma groupsSegments_add:
  assumes g: "groupsSegments s done m"
    and k: "k = ownerNodeId (store s r)"
    and nd: "nodeMap s k = Some nd"
    and has: "\<not> mapHas m k"
  shows "groupsSegments s (done @ [r])
     (pushPortPoints k (segmentPortPoints (store s r))
       (m @ [\<lparr>capacityMeshNodeId = k, center = center nd, width = width nd, height = height nd,
               portPoints = []\<rparr>]))"
proof -
  let ?new = "\<lparr>capacityMeshNodeId = k, center = center nd, width = width nd, height = height nd,
               portPoints = []\<rparr>"
  from g have d: "distinct (map capacityMeshNodeId m)"
    and ks: "set (map capacityMeshNodeId m) = set (map (\<lambda>r. ownerNodeId (store s r)) done)"
    and es: "\<forall>e\<in>set m. entryGroups s done e"
    by (simp_all add: groupsSegments_def)
  from has have nk: "k \<notin> set (map capacityMeshNodeId m)" by (simp add: mapHas_iff)
  have d': "distinct (map capacityMeshNodeId (m @ [?new]))" using d nk by simp
  have ks': "set (map capacityMeshNodeId (m @ [?new])) = set (map (\<lambda>r. ownerNodeId (store s r)) (done @ [r]))"
    using ks k by auto
  have "entryGroups s done ?new" using nk ks nd by (intro entryGroups_new) simp_all
  with es have es1: "\<forall>e\<in>set (m @ [?new]). entryGroups s done e" by simp
  have es': "\<forall>e\<in>set (pushPortPoints k (segmentPortPoints (store s r)) (m @ [?new])). entryGroups s (done @ [r]) e"
    using es1 by (rule entryGroups_pushAll [OF _ k])
  from d' ks' es' show ?thesis
    unfolding groupsSegments_def pushPortPoints_keys by blast
qed

lemma collectPortPoints_groups:
  assumes "\<forall>r\<in>set rest. ownerNodeId (store s r) \<in> dom (nodeMap s) \<and> assignedPoints (store s r) \<noteq> None"
    and "groupsSegments s done m"
  shows "\<exists>res. collectPortPoints s rest m = Inr res \<and> groupsSegments s (done @ rest) res"
  using assms
proof (induction rest arbitrary: m "done")
  case Nil
  then show ?case by simp
next
  case (Cons r rest)
  let ?k = "ownerNodeId (store s r)"
  from Cons.prems(1) obtain nd aps where nd: "nodeMap s ?k = Some nd"
    and aps: "assignedPoints (store s r) = Some aps" by auto
  have pts: "segmentPortPoints (store s r) = map toPortPoint aps"
    by (simp add: segmentPortPoints_def aps)
  from Cons.prems(1) have rest: "\<forall>r\<in>set rest. ownerNodeId (store s r) \<in> dom (nodeMap s) \<and> assignedPoints (store s r) \<noteq> None"
    by simp
  show ?case
  proof (cases "mapHas m ?k")
    case True
    let ?M = m
    have eq: "collectPortPoints s (r # rest) m = collectPortPoints s rest (pushPortPoints ?k (map toPortPoint aps) m)"
      using True by (simp add: aps Let_def)
    from groupsSegments_push [OF Cons.prems(2) refl True]
    have "groupsSegments s (done @ [r]) (pushPortPoints ?k (map toPortPoint aps) m)" by (simp add: pts)
    from Cons.IH [OF rest this]
    have "\<exists>res. collectPortPoints s rest (pushPortPoints ?k (map toPortPoint aps) ?M) = Inr res
             \<and> groupsSegments s (done @ r # rest) res" by simp
    then show ?thesis unfolding eq .
  next
    case False
    let ?m1 = "m @ [\<lparr>capacityMeshNodeId = ?k, center = center nd, width = width nd, height = height nd,
               portPoints = []\<rparr>]"
    let ?M = ?m1
    have eq: "collectPortPoints s (r # rest) m = collectPortPoints s rest (pushPortPoints ?k (map toPortPoint aps) ?m1)"
      using False by (simp add: aps nd Let_def)
    from groupsSegments_add [OF Cons.prems(2) refl nd False]
    have "groupsSegments s (done @ [r]) (pushPortPoints ?k (map toPortPoint aps) ?m1)" by (simp add: pts)
    from Cons.IH [OF rest this]
    have "\<exists>res. collectPortPoints s rest (pushPortPoints ?k (map toPortPoint aps) ?M) = Inr res
             \<and> groupsSegments s (done @ r # rest) res" by simp
    then show ?thesis unfolding eq .
  qed
qed

lemma step_nodeMap: "nodeMap (CapacitySegmentToPointSolver_step s) = nodeMap s"
proof (cases "unsolvedSegments s = []")
  case True
  then show ?thesis by (simp add: step_empty)
next
  case False
  show ?thesis
  proof (cases "drained (store s) (unsolvedSegments s) = []")
    case True
    then show ?thesis by (simp add: step_fallback [OF False True] Let_def)
  next
    case F: False
    then show ?thesis by (simp add: step_drain [OF F] Let_def)
  qed
qed

lemma step_keeps_points:
  assumes "\<forall>r\<in>set (solvedSegments s). assignedPoints (store s r) \<noteq> None"
  shows "\<forall>r\<in>set (solvedSegments (CapacitySegmentToPointSolver_step s)).
           assignedPoints (store (CapacitySegmentToPointSolver_step s) r) \<noteq> None"
proof (cases "unsolvedSegments s = []")
  case True
  with assms show ?thesis by (simp add: step_empty)
next
  case False
  show ?thesis
  proof (cases "drained (store s) (unsolvedSegments s) = []")
    case True
    with assms show ?thesis by (simp add: step_fallback [OF False True] Let_def)
  next
    case F: False
    have "set (drained (store s) (unsolvedSegments s))
        = {q \<in> set (unsolvedSegments s). pendingSingle (store s) q}"
      by (auto simp: drained_def)
    with assms show ?thesis
      by (auto simp: step_drain [OF F] Let_def assignCenter_def)
  qed
qed

lemma reachable_inv:
  "nodeMap ((segmentSolverStep ^^ k) (newCapacitySegmentToPointSolver h segments ns)) = fromEntries ns
   \<and> (\<forall>r\<in>set (solvedSegments ((segmentSolverStep ^^ k) (newCapacitySegmentToPointSolver h segments ns))).
         assignedPoints (store ((segmentSolverStep ^^ k) (newCapacitySegmentToPointSolver h segments ns)) r) \<noteq> None)"
proof (induction k)
  case 0
  then show ?case by (simp add: newCapacitySegmentToPointSolver_def)
next
  case (Suc k)
  let ?t = "(segmentSolverStep ^^ k) (newCapacitySegmentToPointSolver h segments ns)"
  have unf: "(segmentSolverStep ^^ Suc k) (newCapacitySegmentToPointSolver h segments ns) = segmentSolverStep ?t"
    by simp
  show ?case
  proof (cases "solved ?t \<or> failed ?t")
    case True
    then have "segmentSolverStep ?t = ?t" by (simp add: segmentSolverStep_def)
    with Suc.IH show ?thesis unfolding unf by simp
  next
    case False
    then have eq: "segmentSolverStep ?t = CapacitySegmentToPointSolver_step ?t"
      by (simp add: segmentSolverStep_def)
    from Suc.IH step_keeps_points [of ?t] step_nodeMap [of ?t]
    show ?thesis unfolding unf eq by simp
  qed
qed

text \<open>
  C8. In a state that is not solved the query throws its error and returns nothing. In a
  solved state whose assigned segments all carry their points and have an owner in the node
  lookup, it returns one entry per owner of an assigned segment, each with the owner's
  identity, the centre, width and height the lookup has for it, and the port points of the
  owner's segments, flattened in the order of the assigned array. Every state reached from
  the constructor by calls to \<open>step\<close> keeps the lookup and has points on all assigned
  segments, so there only an owner unknown to the lookup can make the query throw.
\<close>

theorem port_points_query:
  "(\<not> solved s \<longrightarrow> getNodesWithPortPoints s =
        Inl (Error ''CapacitySegmentToPointSolver not solved, can't give port points yet''))
   \<and> (solved s \<and> (\<forall>r\<in>set (solvedSegments s).
          ownerNodeId (store s r) \<in> dom (nodeMap s) \<and> assignedPoints (store s r) \<noteq> None) \<longrightarrow>
       (\<exists>res. getNodesWithPortPoints s = Inr res
          \<and> distinct (map capacityMeshNodeId res)
          \<and> set (map capacityMeshNodeId res) = set (map (\<lambda>r. ownerNodeId (store s r)) (solvedSegments s))
          \<and> (\<forall>e\<in>set res.
                (\<exists>nd. nodeMap s (capacityMeshNodeId e) = Some nd
                    \<and> center e = center nd \<and> width e = width nd \<and> height e = height nd)
                \<and> portPoints e =
                    concat (map (\<lambda>r. segmentPortPoints (store s r))
                      (filter (\<lambda>r. ownerNodeId (store s r) = capacityMeshNodeId e) (solvedSegments s))))))
   \<and> (\<forall>k h segments ns. s = (segmentSolverStep ^^ k) (newCapacitySegmentToPointSolver h segments ns) \<longrightarrow>
         nodeMap s = fromEntries ns
         \<and> (\<forall>r\<in>set (solvedSegments s). assignedPoints (store s r) \<noteq> None))"
proof (intro conjI impI allI)
  assume "\<not> solved s"
  then show "getNodesWithPortPoints s =
        Inl (Error ''CapacitySegmentToPointSolver not solved, can't give port points yet'')"
    by (simp add: getNodesWithPortPoints_def)
next
  assume a: "solved s \<and> (\<forall>r\<in>set (solvedSegments s).
          ownerNodeId (store s r) \<in> dom (nodeMap s) \<and> assignedPoints (store s r) \<noteq> None)"
  have g0: "groupsSegments s [] []" by (simp add: groupsSegments_def)
  from a have good: "\<forall>r\<in>set (solvedSegments s).
          ownerNodeId (store s r) \<in> dom (nodeMap s) \<and> assignedPoints (store s r) \<noteq> None" by simp
  from collectPortPoints_groups [OF good g0] obtain res
    where res: "collectPortPoints s (solvedSegments s) [] = Inr res"
      and g: "groupsSegments s (solvedSegments s) res" by auto
  from a res have "getNodesWithPortPoints s = Inr res" by (simp add: getNodesWithPortPoints_def)
  with g show "\<exists>res. getNodesWithPortPoints s = Inr res
          \<and> distinct (map capacityMeshNodeId res)
          \<and> set (map capacityMeshNodeId res) = set (map (\<lambda>r. ownerNodeId (store s r)) (solvedSegments s))
          \<and> (\<forall>e\<in>set res.
                (\<exists>nd. nodeMap s (capacityMeshNodeId e) = Some nd
                    \<and> center e = center nd \<and> width e = width nd \<and> height e = height nd)
                \<and> portPoints e =
                    concat (map (\<lambda>r. segmentPortPoints (store s r))
                      (filter (\<lambda>r. ownerNodeId (store s r) = capacityMeshNodeId e) (solvedSegments s))))"
    unfolding groupsSegments_def entryGroups_def by blast
next
  fix k h segments ns
  assume "s = (segmentSolverStep ^^ k) (newCapacitySegmentToPointSolver h segments ns)"
  with reachable_inv [of k h segments ns]
  show "nodeMap s = fromEntries ns" and "\<forall>r\<in>set (solvedSegments s). assignedPoints (store s r) \<noteq> None"
    by simp_all
qed

lemma queryEngine_stepped:
  "solved (segmentSolverStep queryEngine)"
  "solvedSegments (segmentSolverStep queryEngine) = [0, 2]"
  "store (segmentSolverStep queryEngine) 0 = assignCenter segSingle"
  "store (segmentSolverStep queryEngine) 2 = assignCenter segSingle"
  "nodeMap (segmentSolverStep queryEngine) ''n1'' = Some nodeA"
proof -
  have us: "unsolvedSegments queryEngine = [0, 2]" and st: "store queryEngine = mixedStore"
    and nm: "nodeMap queryEngine = fromEntries [nodeA, nodeB]"
    and ns: "\<not> solved queryEngine" "\<not> failed queryEngine" and ss: "solvedSegments queryEngine = []"
    by (simp_all add: queryEngine_def newCapacitySegmentToPointSolver_def)
  have p: "pendingSingle mixedStore 0" "pendingSingle mixedStore 2"
    by (simp_all add: pendingSingle_def mixedStore_def segSingle_def alreadyProcessed_def)
  have d: "drained (store queryEngine) (unsolvedSegments queryEngine) = [0, 2]"
    by (simp add: us st drained_def p)
  have eq: "segmentSolverStep queryEngine = CapacitySegmentToPointSolver_step queryEngine"
    using ns by (simp add: segmentSolverStep_def)
  have ne: "drained (store queryEngine) (unsolvedSegments queryEngine) \<noteq> []" by (simp add: d)
  show "solved (segmentSolverStep queryEngine)"
    "solvedSegments (segmentSolverStep queryEngine) = [0, 2]"
    "store (segmentSolverStep queryEngine) 0 = assignCenter segSingle"
    "store (segmentSolverStep queryEngine) 2 = assignCenter segSingle"
    "nodeMap (segmentSolverStep queryEngine) ''n1'' = Some nodeA"
    unfolding eq step_drain [OF ne] d
    by (simp_all add: Let_def us st ss p nm mixedStore_def fromEntries_def nodeA_def nodeB_def)
qed

theorem port_points_query_witness:
  "\<not> solved queryEngine
   \<and> getNodesWithPortPoints queryEngine =
        Inl (Error ''CapacitySegmentToPointSolver not solved, can't give port points yet'')
   \<and> solved (segmentSolverStep queryEngine)
   \<and> (\<exists>e. getNodesWithPortPoints (segmentSolverStep queryEngine) = Inr [e]
        \<and> capacityMeshNodeId e = ''n1'' \<and> center e = \<lparr>x = 5, y = 5\<rparr> \<and> width e = 10 \<and> height e = 4
        \<and> portPoints e = [\<lparr>x = 2, y = 1, z = Some 1, portConnectionName = ''net1''\<rparr>,
                           \<lparr>x = 2, y = 1, z = Some 1, portConnectionName = ''net1''\<rparr>])
   \<and> nodeMap (segmentSolverStep queryEngine) = fromEntries [nodeA, nodeB]"
proof -
  let ?t = "segmentSolverStep queryEngine"
  have ns: "\<not> solved queryEngine" by (simp add: queryEngine_def newCapacitySegmentToPointSolver_def)
  from port_points_query [of queryEngine] ns
  have err: "getNodesWithPortPoints queryEngine =
        Inl (Error ''CapacitySegmentToPointSolver not solved, can't give port points yet'')" by blast
  have own: "ownerNodeId (store ?t 0) = ''n1''" "ownerNodeId (store ?t 2) = ''n1''"
    by (simp_all add: queryEngine_stepped assignCenter_def segSingle_def)
  have pts: "segmentPortPoints (store ?t 0) = [\<lparr>x = 2, y = 1, z = Some 1, portConnectionName = ''net1''\<rparr>]"
    "segmentPortPoints (store ?t 2) = [\<lparr>x = 2, y = 1, z = Some 1, portConnectionName = ''net1''\<rparr>]"
    by (simp_all add: queryEngine_stepped assignCenter_def segSingle_def segmentPortPoints_def
        toPortPoint_def centerOf_def first_def)
  have good: "solved ?t \<and> (\<forall>r\<in>set (solvedSegments ?t).
          ownerNodeId (store ?t r) \<in> dom (nodeMap ?t) \<and> assignedPoints (store ?t r) \<noteq> None)"
    by (simp add: queryEngine_stepped(1,2) own dom_def queryEngine_stepped(5))
      (simp add: queryEngine_stepped(3,4) assignCenter_def)
  with port_points_query [of ?t] obtain res where res: "getNodesWithPortPoints ?t = Inr res"
    and d: "distinct (map capacityMeshNodeId res)"
    and ks: "set (map capacityMeshNodeId res) = set (map (\<lambda>r. ownerNodeId (store ?t r)) (solvedSegments ?t))"
    and es: "\<forall>e\<in>set res.
                (\<exists>nd. nodeMap ?t (capacityMeshNodeId e) = Some nd
                    \<and> center e = center nd \<and> width e = width nd \<and> height e = height nd)
                \<and> portPoints e =
                    concat (map (\<lambda>r. segmentPortPoints (store ?t r))
                      (filter (\<lambda>r. ownerNodeId (store ?t r) = capacityMeshNodeId e) (solvedSegments ?t)))"
    by blast
  from ks have ks': "set (map capacityMeshNodeId res) = {''n1''}"
    by (simp add: queryEngine_stepped(2) own)
  with d obtain e where r1: "res = [e]" and id: "capacityMeshNodeId e = ''n1''"
    by (cases res) (auto simp: card_1_singleton_iff subset_singleton_iff)
  from es r1 id have "center e = \<lparr>x = 5, y = 5\<rparr> \<and> width e = 10 \<and> height e = 4
        \<and> portPoints e = [\<lparr>x = 2, y = 1, z = Some 1, portConnectionName = ''net1''\<rparr>,
                           \<lparr>x = 2, y = 1, z = Some 1, portConnectionName = ''net1''\<rparr>]"
    by (simp add: queryEngine_stepped(2,5) own pts nodeA_def)
  moreover have "?t = (segmentSolverStep ^^ 1) (newCapacitySegmentToPointSolver mixedStore [0, 2] [nodeA, nodeB])"
    by (simp add: queryEngine_def)
  with port_points_query [of ?t] have "nodeMap ?t = fromEntries [nodeA, nodeB]" by blast
  ultimately show ?thesis using ns err res r1 id queryEngine_stepped(1) by blast
qed

section \<open>Facts about the section extractor\<close>

subsection \<open>The adjacency map\<close>

lemma edgesAt_append_new:
  "map_of m k = None \<Longrightarrow> edgesAt (m @ [(k, [e])]) v = (if v = k then [e] else edgesAt m v)"
  by (auto simp: edgesAt_def map_add_def split: option.splits)

lemma map_of_extend:
  "map_of (map (\<lambda>(k', es). if k' = k then (k', es @ [e]) else (k', es)) m) v
     = map_option (\<lambda>es. if v = k then es @ [e] else es) (map_of m v)"
  by (induction m) auto

lemma edgesAt_addEdgeFor:
  "edgesAt (addEdgeFor e k m) v = (if v = k then edgesAt m v @ [e] else edgesAt m v)"
proof (cases "map_of m k")
  case None
  then show ?thesis
    by (simp add: addEdgeFor_def edgesAt_append_new) (simp add: edgesAt_def)
next
  case (Some es0)
  then show ?thesis
    by (cases "map_of m v") (auto simp: addEdgeFor_def edgesAt_def map_of_extend)
qed

lemma set_edgesAt_fold:
  "set (edgesAt (fold (\<lambda>edge m. addEdgeFor edge (snd (nodeIds edge)) (addEdgeFor edge (fst (nodeIds edge)) m)) es m0) v)
     = set (edgesAt m0 v) \<union> {e \<in> set es. fst (nodeIds e) = v \<or> snd (nodeIds e) = v}"
proof (induction es arbitrary: m0)
  case Nil
  then show ?case by simp
next
  case (Cons e es)
  show ?case
    unfolding fold_simps Cons.IH by (auto simp: edgesAt_addEdgeFor)
qed

lemma set_edgesAt_getNodeEdgeMap:
  "set (edgesAt (getNodeEdgeMap es) v) = {e \<in> set es. fst (nodeIds e) = v \<or> snd (nodeIds e) = v}"
  unfolding getNodeEdgeMap_def set_edgesAt_fold by (simp add: edgesAt_def)

lemma neighborsOf_edgesAt:
  "neighborsOf m v = concat (map (\<lambda>edge. filter (\<lambda>id. id \<noteq> v) [fst (nodeIds edge), snd (nodeIds edge)]) (edgesAt m v))"
  by (simp add: neighborsOf_def edgesAt_def split: option.splits)

lemma neighbors_iff:
  "w \<in> set (neighborsOf (getNodeEdgeMap es) v) \<longleftrightarrow> w \<noteq> v \<and> adjacent es v w"
proof -
  have "w \<in> set (neighborsOf (getNodeEdgeMap es) v)
      \<longleftrightarrow> (\<exists>e\<in>set (edgesAt (getNodeEdgeMap es) v). w \<noteq> v \<and> (w = fst (nodeIds e) \<or> w = snd (nodeIds e)))"
    unfolding neighborsOf_edgesAt by auto
  also have "\<dots> \<longleftrightarrow> (\<exists>e\<in>set es. (fst (nodeIds e) = v \<or> snd (nodeIds e) = v)
                         \<and> w \<noteq> v \<and> (w = fst (nodeIds e) \<or> w = snd (nodeIds e)))"
    unfolding set_edgesAt_getNodeEdgeMap by auto
  also have "\<dots> \<longleftrightarrow> w \<noteq> v \<and> adjacent es v w"
    unfolding adjacent_def by (auto simp: prod_eq_iff)
  finally show ?thesis .
qed

subsection \<open>The traversal\<close>

lemma enqueueNeighbors_char:
  "enqueueNeighbors d nbs (ids, q) =
     (ids @ firsts (filter (\<lambda>w. w \<notin> set ids) nbs),
      q @ map (\<lambda>w. (w, d + 1)) (firsts (filter (\<lambda>w. w \<notin> set ids) nbs)))"
proof (induction nbs arbitrary: ids q)
  case Nil
  then show ?case by simp
next
  case (Cons nb nbs)
  show ?case
  proof (cases "nb \<in> set ids")
    case True
    then show ?thesis by (simp add: Cons.IH)
  next
    case False
    have "filter (\<lambda>w. w \<notin> set (ids @ [nb])) nbs = filter (\<lambda>b. b \<noteq> nb) (filter (\<lambda>w. w \<notin> set ids) nbs)"
      by (auto intro: filter_cong)
    with False show ?thesis by (simp add: Cons.IH filter_firsts)
  qed
qed

lemma bfsInv_init: "bfsInv es c r ([c], [(c, 0)], 0)"
  by (simp add: bfsInv_def hops_zero)

text \<open>Every node at most as far as the entry at \<open>head\<close> is already in the section.\<close>

lemma bfsInv_near_visited:
  assumes inv: "bfsInv es c r (ids, queue, head)"
    and head: "head < length queue"
    and h: "hops es c k u"
    and k: "k \<le> snd (queue ! head)"
  shows "u \<in> set ids"
  using h k
proof (induction rule: hops.induct)
  case hops_zero
  from inv show ?case by (simp add: bfsInv_def)
next
  case (hops_step k v w)
  let ?D = "snd (queue ! head)"
  from hops_step have v: "v \<in> set ids" and kD: "k < ?D" by simp_all
  from inv have ids: "map fst queue = ids" by (simp add: bfsInv_def)
  with v have "v \<in> fst ` set queue" by (metis set_map)
  then obtain p where p: "p \<in> set queue" "fst p = v" by auto
  then obtain i where i: "i < length queue" "queue ! i = p" by (auto simp: in_set_conv_nth)
  from inv p(1) have pr: "snd p \<le> r" "\<forall>k. hops es c k (fst p) \<longrightarrow> snd p \<le> k"
    by (auto simp: bfsInv_def)
  from pr(2) p(2) hops_step.hyps(1) have dk: "snd p \<le> k" by blast
  from inv have srt: "sorted (map snd queue)" by (simp add: bfsInv_def)
  have ih: "i < head"
  proof (rule ccontr)
    assume "\<not> i < head"
    then have "head \<le> i" by simp
    with srt i(1) have "map snd queue ! head \<le> map snd queue ! i"
      by (simp add: sorted_iff_nth_mono)
    with i head have "?D \<le> snd p" by simp
    with dk kD show False by simp
  qed
  from inv head have "\<forall>p\<in>set queue. snd p \<le> r" by (auto simp: bfsInv_def)
  with head have "?D \<le> r" by (metis nth_mem)
  with dk kD have lt: "snd (queue ! i) < r" using i(2) by simp
  from inv ih lt have "\<forall>w. adjacent es (fst (queue ! i)) w \<longrightarrow> w \<in> set ids"
    by (simp add: bfsInv_def)
  with hops_step.hyps(2) i(2) p(2) show ?case by simp
qed

lemma bfsInv_skip:
  assumes inv: "bfsInv es c r (ids, queue, head)"
    and head: "head < length queue"
    and deep: "r \<le> snd (queue ! head)"
  shows "bfsInv es c r (ids, queue, Suc head)"
proof -
  let ?D = "snd (queue ! head)"
  from inv have srt: "sorted (map snd queue)"
    and near: "\<forall>p\<in>set queue. snd p \<le> Suc ?D"
    and old: "\<forall>i<head. snd (queue ! i) < r \<longrightarrow> (\<forall>w. adjacent es (fst (queue ! i)) w \<longrightarrow> w \<in> set ids)"
    using head by (simp_all add: bfsInv_def)
  have a: "Suc head < length queue \<longrightarrow> (\<forall>p\<in>set queue. snd p \<le> Suc (snd (queue ! Suc head)))"
  proof (intro impI ballI)
    fix p assume lt: "Suc head < length queue" and p: "p \<in> set queue"
    from srt lt have "map snd queue ! head \<le> map snd queue ! Suc head"
      by (simp add: sorted_iff_nth_mono)
    with lt have "?D \<le> snd (queue ! Suc head)" by simp
    moreover from near p have "snd p \<le> Suc ?D" by blast
    ultimately show "snd p \<le> Suc (snd (queue ! Suc head))" by simp
  qed
  have b: "\<forall>i<Suc head. snd (queue ! i) < r \<longrightarrow> (\<forall>w. adjacent es (fst (queue ! i)) w \<longrightarrow> w \<in> set ids)"
  proof (intro allI impI)
    fix i w assume i: "i < Suc head" and lt: "snd (queue ! i) < r" and adj: "adjacent es (fst (queue ! i)) w"
    from lt deep have "i \<noteq> head" by auto
    with i have "i < head" by simp
    with old lt adj show "w \<in> set ids" by blast
  qed
  from inv head a b show ?thesis by (simp add: bfsInv_def)
qed

lemma bfsInv_expand:
  assumes inv: "bfsInv es c r (ids, queue, head)"
    and head: "head < length queue"
    and shallow: "snd (queue ! head) < r"
    and nbs: "\<forall>w. w \<in> set nbs \<longleftrightarrow> w \<noteq> fst (queue ! head) \<and> adjacent es (fst (queue ! head)) w"
    and news: "news = firsts (filter (\<lambda>w. w \<notin> set ids) nbs)"
  shows "bfsInv es c r (ids @ news, queue @ map (\<lambda>w. (w, snd (queue ! head) + 1)) news, Suc head)"
proof -
  let ?D = "snd (queue ! head)"
  let ?v = "fst (queue ! head)"
  let ?q = "queue @ map (\<lambda>w. (w, ?D + 1)) news"
  from inv have ids: "map fst queue = ids" and dist: "distinct ids" and c: "c \<in> set ids"
    and ents: "\<forall>p\<in>set queue. snd p \<le> r \<and> hops es c (snd p) (fst p) \<and> (\<forall>k. hops es c k (fst p) \<longrightarrow> snd p \<le> k)"
    and srt: "sorted (map snd queue)"
    and near: "\<forall>p\<in>set queue. snd p \<le> Suc ?D"
    and old: "\<forall>i<head. snd (queue ! i) < r \<longrightarrow> (\<forall>w. adjacent es (fst (queue ! i)) w \<longrightarrow> w \<in> set ids)"
    using head by (simp_all add: bfsInv_def)
  have newset: "set news = {w \<in> set nbs. w \<notin> set ids}" and newdist: "distinct news"
    by (simp_all add: news)
  from head have hmem: "queue ! head \<in> set queue" by simp
  with ents have hv: "hops es c ?D ?v" by blast
  have i1: "map fst ?q = ids @ news" by (simp add: ids o_def)
  have i2: "distinct (ids @ news)" using dist newdist newset by auto
  have i3: "c \<in> set (ids @ news)" using c by simp
  have i4: "Suc head \<le> length ?q" using head by simp
  have i5: "\<forall>p\<in>set ?q. snd p \<le> r \<and> hops es c (snd p) (fst p) \<and> (\<forall>k. hops es c k (fst p) \<longrightarrow> snd p \<le> k)"
  proof
    fix p assume "p \<in> set ?q"
    then consider "p \<in> set queue" | w where "w \<in> set news" "p = (w, ?D + 1)" by auto
    then show "snd p \<le> r \<and> hops es c (snd p) (fst p) \<and> (\<forall>k. hops es c k (fst p) \<longrightarrow> snd p \<le> k)"
    proof cases
      case 1
      with ents show ?thesis by blast
    next
      case 2
      from 2(1) newset have wn: "w \<in> set nbs" and wi: "w \<notin> set ids" by auto
      from wn nbs have adj: "adjacent es ?v w" by blast
      have h: "hops es c (Suc ?D) w" by (rule hops_step [OF hv adj])
      have least: "\<forall>k. hops es c k w \<longrightarrow> Suc ?D \<le> k"
      proof (intro allI impI)
        fix k assume hk: "hops es c k w"
        show "Suc ?D \<le> k"
        proof (rule ccontr)
          assume "\<not> Suc ?D \<le> k"
          then have "k \<le> ?D" by simp
          from bfsInv_near_visited [OF inv head hk this] wi show False by contradiction
        qed
      qed
      from shallow h least show ?thesis by (simp add: 2(2))
    qed
  qed
  have rep: "map snd (map (\<lambda>w. (w, ?D + 1)) news) = replicate (length news) (?D + 1)"
    by (simp add: o_def map_replicate_const)
  have i6: "sorted (map snd ?q)"
    unfolding map_append rep using srt near by (auto simp: sorted_append)
  have i7: "Suc head < length ?q \<longrightarrow> (\<forall>p\<in>set ?q. snd p \<le> Suc (snd (?q ! Suc head)))"
  proof (intro impI ballI)
    fix p assume lt: "Suc head < length ?q" and p: "p \<in> set ?q"
    from i6 lt have "map snd ?q ! head \<le> map snd ?q ! Suc head"
      by (intro sorted_nth_mono) simp_all
    with lt head have le: "?D \<le> snd (?q ! Suc head)"
      by (simp add: nth_append del: map_append)
    from p near have "snd p \<le> Suc ?D" by auto
    with le show "snd p \<le> Suc (snd (?q ! Suc head))" by simp
  qed
  have i8: "\<forall>i<Suc head. snd (?q ! i) < r \<longrightarrow> (\<forall>w. adjacent es (fst (?q ! i)) w \<longrightarrow> w \<in> set (ids @ news))"
  proof (intro allI impI)
    fix i w assume i: "i < Suc head" and lt: "snd (?q ! i) < r" and adj: "adjacent es (fst (?q ! i)) w"
    from i head have qi: "?q ! i = queue ! i" by (simp add: nth_append)
    show "w \<in> set (ids @ news)"
    proof (cases "i = head")
      case True
      show ?thesis
      proof (cases "w = ?v")
        case True
        from hmem ids have "?v \<in> set ids" by (metis nth_map nth_mem head length_map)
        with True show ?thesis by simp
      next
        case False
        with adj qi \<open>i = head\<close> nbs have "w \<in> set nbs" by simp
        then show ?thesis by (auto simp: newset)
      qed
    next
      case False
      with i have "i < head" by simp
      with old lt adj qi show ?thesis by auto
    qed
  qed
  from i1 i2 i3 i4 i5 i6 i7 i8 show ?thesis
    unfolding bfsInv_def by (simp only: prod.case)
qed

declare bfsLoop.simps [simp del]

lemma bfsLoop_exit: "\<not> head < length queue \<Longrightarrow> bfsLoop m r (ids, queue, head) = (ids, queue, head)"
  by (subst bfsLoop.simps) simp

lemma bfsLoop_skip:
  "head < length queue \<Longrightarrow> r \<le> snd (queue ! head) \<Longrightarrow>
     bfsLoop m r (ids, queue, head) = bfsLoop m r (ids, queue, Suc head)"
  by (subst bfsLoop.simps) (simp add: case_prod_beta)

lemma bfsLoop_expand:
  "head < length queue \<Longrightarrow> snd (queue ! head) < r \<Longrightarrow>
     news = firsts (filter (\<lambda>w. w \<notin> set ids) (neighborsOf m (fst (queue ! head)))) \<Longrightarrow>
     bfsLoop m r (ids, queue, head)
       = bfsLoop m r (ids @ news, queue @ map (\<lambda>w. (w, snd (queue ! head) + 1)) news, Suc head)"
  by (subst bfsLoop.simps) (simp add: case_prod_beta enqueueNeighbors_char)

lemma bfsLoop_inv:
  "bfsInv es c r st \<Longrightarrow> m = getNodeEdgeMap es \<Longrightarrow>
     bfsInv es c r (bfsLoop m r st) \<and> snd (snd (bfsLoop m r st)) = length (fst (snd (bfsLoop m r st)))"
proof (induction m r st rule: bfsLoop.induct)
  case (1 m r ids queue head)
  show ?case
  proof (cases "head < length queue")
    case False
    from "1.prems"(1) have "head \<le> length queue" by (simp add: bfsInv_def)
    with False have "head = length queue" by simp
    with False "1.prems"(1) show ?thesis by (simp add: bfsLoop_exit)
  next
    case True
    obtain nodeId depth where qh: "queue ! head = (nodeId, depth)" by (cases "queue ! head")
    show ?thesis
    proof (cases "r \<le> depth")
      case deep: True
      have inv': "bfsInv es c r (ids, queue, head + 1)"
        using bfsInv_skip [OF "1.prems"(1) True] deep qh by simp
      from "1.IH"(1) [OF True refl qh [symmetric] deep inv' "1.prems"(2)]
      show ?thesis using True deep qh by (simp add: bfsLoop_skip)
    next
      case shallow: False
      define news where "news = firsts (filter (\<lambda>w. w \<notin> set ids) (neighborsOf m nodeId))"
      have enq: "enqueueNeighbors depth (neighborsOf m nodeId) (ids, queue)
                 = (ids @ news, queue @ map (\<lambda>w. (w, depth + 1)) news)"
        by (simp add: enqueueNeighbors_char news_def)
      have nbs: "\<forall>w. w \<in> set (neighborsOf m nodeId) \<longleftrightarrow> w \<noteq> fst (queue ! head) \<and> adjacent es (fst (queue ! head)) w"
        by (simp add: "1.prems"(2) neighbors_iff qh)
      have inv': "bfsInv es c r (ids @ news, queue @ map (\<lambda>w. (w, depth + 1)) news, head + 1)"
        using bfsInv_expand [OF "1.prems"(1) True _ nbs, of news] shallow qh news_def by simp
      from "1.IH"(2) [OF True refl qh [symmetric] shallow refl enq [symmetric] inv' "1.prems"(2)]
      show ?thesis
        using bfsLoop_expand [OF True, of r news ids m] shallow qh news_def by simp
    qed
  qed
qed

lemma bfsInv_final:
  assumes inv: "bfsInv es c r (ids, queue, length queue)"
  shows "set ids = withinHops es c r"
proof
  show "set ids \<subseteq> withinHops es c r"
  proof
    fix v assume "v \<in> set ids"
    moreover from inv have "map fst queue = ids" by (simp add: bfsInv_def)
    ultimately have "v \<in> fst ` set queue" by (metis set_map)
    then obtain p where p: "p \<in> set queue" "fst p = v" by auto
    with inv have "snd p \<le> r \<and> hops es c (snd p) v" by (auto simp: bfsInv_def)
    then show "v \<in> withinHops es c r" unfolding withinHops_def by blast
  qed
next
  have reach: "hops es c k u \<Longrightarrow> k \<le> r \<Longrightarrow> u \<in> set ids" for k u
  proof (induction rule: hops.induct)
    case hops_zero
    from inv show ?case by (simp add: bfsInv_def)
  next
    case (hops_step k v w)
    then have v: "v \<in> set ids" and kr: "k < r" by simp_all
    from inv have ids: "map fst queue = ids" by (simp add: bfsInv_def)
    with v have "v \<in> fst ` set queue" by (metis set_map)
    then obtain p where p: "p \<in> set queue" "fst p = v" by auto
    then obtain i where i: "i < length queue" "queue ! i = p" by (auto simp: in_set_conv_nth)
    from inv p(1) have "\<forall>k. hops es c k (fst p) \<longrightarrow> snd p \<le> k" by (auto simp: bfsInv_def)
    with p(2) hops_step.hyps(1) have "snd p \<le> k" by blast
    with kr i(2) have lt: "snd (queue ! i) < r" by simp
    from inv i(1) lt have "\<forall>w. adjacent es (fst (queue ! i)) w \<longrightarrow> w \<in> set ids"
      by (simp add: bfsInv_def)
    with hops_step.hyps(2) i(2) p(2) show ?case by simp
  qed
  show "withinHops es c r \<subseteq> set ids"
    unfolding withinHops_def using reach by blast
qed

lemma sectionNodeIds_correct:
  "set (sectionNodeIdsOf (getNodeEdgeMap es) c r) = withinHops es c r
   \<and> distinct (sectionNodeIdsOf (getNodeEdgeMap es) c r)
   \<and> c \<in> set (sectionNodeIdsOf (getNodeEdgeMap es) c r)"
proof -
  obtain ids queue head where res: "bfsLoop (getNodeEdgeMap es) r ([c], [(c, 0)], 0) = (ids, queue, head)"
    by (cases "bfsLoop (getNodeEdgeMap es) r ([c], [(c, 0)], 0)") auto
  from bfsLoop_inv [OF bfsInv_init refl, of es c r]
  have "bfsInv es c r (ids, queue, head) \<and> head = length queue"
    unfolding res fst_conv snd_conv .
  then have inv: "bfsInv es c r (ids, queue, head)" and h: "head = length queue" by blast+
  from inv have "bfsInv es c r (ids, queue, length queue)" unfolding h .
  then have "set ids = withinHops es c r" by (rule bfsInv_final)
  moreover from inv have "distinct ids" "c \<in> set ids" by (simp_all add: bfsInv_def)
  ultimately show ?thesis by (simp add: sectionNodeIdsOf_def res)
qed

subsection \<open>The section of the constructor\<close>

lemma fromEntries_snoc: "fromEntries (ns @ [n]) = (fromEntries ns)(capacityMeshNodeId n \<mapsto> n)"
  by (simp add: fromEntries_def)

lemma fromEntries_Some: "fromEntries ns v = Some n \<Longrightarrow> n \<in> set ns \<and> capacityMeshNodeId n = v"
proof (induction ns rule: rev_induct)
  case Nil
  then show ?case by (simp add: fromEntries_def)
next
  case (snoc a ns)
  then show ?case by (auto simp: fromEntries_snoc split: if_splits)
qed

lemma fromEntries_None: "fromEntries ns v = None \<longleftrightarrow> v \<notin> capacityMeshNodeId ` set ns"
proof (induction ns rule: rev_induct)
  case Nil
  then show ?case by (simp add: fromEntries_def)
next
  case (snoc a ns)
  then show ?case by (auto simp: fromEntries_snoc)
qed

lemma new_section_fields:
  assumes "s = newCapacityPathingSingleSectionSolver newSub c conns ns es hp"
  shows "centerNodeId s = c" "nodeEdgeMap s = getNodeEdgeMap es" "edges s = es"
    "expansionDegrees s = (case hp of None \<Rightarrow> 3 | Some h \<Rightarrow> (case EXPANSION_DEGREES h of None \<Rightarrow> 3 | Some d \<Rightarrow> d))"
    "sectionNodes s = map (fromEntries ns) (sectionNodeIdsOf (getNodeEdgeMap es) c (expansionDegrees s))"
    "sectionEdges s = filter (\<lambda>e. fst (nodeIds e) \<in> set (sectionNodeIdsOf (getNodeEdgeMap es) c (expansionDegrees s))
                               \<and> snd (nodeIds e) \<in> set (sectionNodeIdsOf (getNodeEdgeMap es) c (expansionDegrees s))) es"
    "sectionConnectionTerminals s = computeTerminals (sectionNodeIdsOf (getNodeEdgeMap es) c (expansionDegrees s)) conns []"
    "activeSubSolver s = Some (newSub (sectionConnectionTerminals s) (sectionNodes s) (sectionEdges s) hp)"
    "\<not> solved s" "\<not> failed s"
  unfolding assms
  by (simp_all add: newCapacityPathingSingleSectionSolver_def computeSectionNodesTerminalsAndEdges_def
      Let_def case_prod_beta)

text \<open>
  C4. For the extractor built by the constructor from a focus \<open>c\<close>, mesh nodes \<open>ns\<close>,
  mesh edges \<open>es\<close> and hyperparameters, with \<open>r\<close> the hop radius (the
  \<^verbatim>\<open>EXPANSION_DEGREES\<close> given, else 3): the set of section node identities that the
  traversal computes is exactly the set of identities within \<open>r\<close> hops of \<open>c\<close> over the
  adjacency of the edges. It contains the focus, holds every identity once, and
  \<open>sectionNodes\<close> is the list of the nodes the lookup has for these identities (a mesh
  node of that identity, or undefined when the mesh has none).
\<close>

theorem section_nodes_within_radius:
  assumes s: "s = newCapacityPathingSingleSectionSolver newSub c conns ns es hp"
    and ids: "ids = sectionNodeIdsOf (nodeEdgeMap s) (centerNodeId s) (expansionDegrees s)"
    and r: "r = expansionDegrees s"
  shows "r = (case hp of None \<Rightarrow> 3 | Some h \<Rightarrow> (case EXPANSION_DEGREES h of None \<Rightarrow> 3 | Some d \<Rightarrow> d))
       \<and> set ids = withinHops es c r
       \<and> (\<forall>v. v \<in> set ids \<longleftrightarrow> (\<exists>k\<le>r. hops es c k v))
       \<and> c \<in> set ids \<and> distinct ids
       \<and> sectionNodes s = map (fromEntries ns) ids
       \<and> (\<forall>i<length ids. case sectionNodes s ! i of
              None \<Rightarrow> ids ! i \<notin> capacityMeshNodeId ` set ns
            | Some n \<Rightarrow> n \<in> set ns \<and> capacityMeshNodeId n = ids ! i)"
proof -
  note f = new_section_fields [OF s]
  have ids': "ids = sectionNodeIdsOf (getNodeEdgeMap es) c r" by (simp add: ids r f(1,2))
  from sectionNodeIds_correct [of es c r]
  have a: "set ids = withinHops es c r" and b: "distinct ids" and cc: "c \<in> set ids"
    unfolding ids' by blast+
  from a have a': "\<forall>v. v \<in> set ids \<longleftrightarrow> (\<exists>k\<le>r. hops es c k v)" by (simp add: withinHops_def)
  have sn: "sectionNodes s = map (fromEntries ns) ids" by (simp add: f(5) ids' r)
  have e: "\<forall>i<length ids. case sectionNodes s ! i of
              None \<Rightarrow> ids ! i \<notin> capacityMeshNodeId ` set ns
            | Some n \<Rightarrow> n \<in> set ns \<and> capacityMeshNodeId n = ids ! i"
  proof (intro allI impI)
    fix i assume i: "i < length ids"
    show "case sectionNodes s ! i of
              None \<Rightarrow> ids ! i \<notin> capacityMeshNodeId ` set ns
            | Some n \<Rightarrow> n \<in> set ns \<and> capacityMeshNodeId n = ids ! i"
    proof (cases "fromEntries ns (ids ! i)")
      case None
      with i show ?thesis by (simp add: sn fromEntries_None [symmetric])
    next
      case (Some n)
      with i fromEntries_Some [OF Some] show ?thesis by (simp add: sn)
    qed
  qed
  from f(4) a a' b cc sn e show ?thesis by (simp add: r)
qed

lemma pathMap: "getNodeEdgeMap pathEdges =
   [(''n0'', [pathEdges ! 0]), (''n1'', [pathEdges ! 0, pathEdges ! 1]),
    (''n2'', [pathEdges ! 1, pathEdges ! 2]), (''n3'', [pathEdges ! 2])]"
  by (simp add: getNodeEdgeMap_def pathEdges_def addEdgeFor_def)

lemma pathSection_ids:
  "sectionNodeIdsOf (getNodeEdgeMap pathEdges) ''n1'' (Suc 0) = [''n1'', ''n0'', ''n2'']"
  unfolding pathMap
  by (simp add: sectionNodeIdsOf_def bfsLoop.simps neighborsOf_def pathEdges_def)

lemma pathSection_radius: "expansionDegrees pathSection = 1"
  using new_section_fields(4) [OF pathSection_def] by simp

theorem section_nodes_within_radius_witness:
  "sectionNodeIdsOf (nodeEdgeMap pathSection) (centerNodeId pathSection) (expansionDegrees pathSection)
     = [''n1'', ''n0'', ''n2'']
   \<and> withinHops pathEdges ''n1'' 1 = {''n0'', ''n1'', ''n2''}
   \<and> ''n3'' \<notin> withinHops pathEdges ''n1'' 1
   \<and> sectionNodes pathSection = [Some (meshNode ''n1''), Some (meshNode ''n0''), Some (meshNode ''n2'')]"
proof -
  note f = new_section_fields [OF pathSection_def]
  have ids: "sectionNodeIdsOf (nodeEdgeMap pathSection) (centerNodeId pathSection) (expansionDegrees pathSection)
     = [''n1'', ''n0'', ''n2'']"
    by (simp add: f(1,2) pathSection_radius pathSection_ids)
  have ids1: "sectionNodeIdsOf (nodeEdgeMap pathSection) (centerNodeId pathSection) 1
     = [''n1'', ''n0'', ''n2'']"
    using ids by (simp only: pathSection_radius)
  note th = section_nodes_within_radius [OF pathSection_def refl refl, unfolded pathSection_radius ids1]
  from th have w: "set [''n1'', ''n0'', ''n2''] = withinHops pathEdges ''n1'' 1"
    by (elim conjE)
  from th have sn: "sectionNodes pathSection = map (fromEntries pathNodes) [''n1'', ''n0'', ''n2'']"
    by (elim conjE)
  from w [symmetric] have w1: "withinHops pathEdges ''n1'' 1 = {''n0'', ''n1'', ''n2''}"
    by (simp add: insert_commute)
  have w2: "''n3'' \<notin> withinHops pathEdges ''n1'' 1" unfolding w1 by simp
  have "map (fromEntries pathNodes) [''n1'', ''n0'', ''n2'']
        = [Some (meshNode ''n1''), Some (meshNode ''n0''), Some (meshNode ''n2'')]"
    by (simp add: fromEntries_def pathNodes_def meshNode_def)
  with ids w1 w2 sn show ?thesis by simp
qed

text \<open>
  C6. The section edges are the mesh edges, in their order, whose two endpoints are both
  section node identities: a subset of the mesh edges, and exactly those with both ends
  within the hop radius of the focus.
\<close>

theorem section_edges_closure:
  assumes s: "s = newCapacityPathingSingleSectionSolver newSub c conns ns es hp"
    and ids: "ids = sectionNodeIdsOf (nodeEdgeMap s) (centerNodeId s) (expansionDegrees s)"
  shows "sectionEdges s = filter (\<lambda>e. fst (nodeIds e) \<in> set ids \<and> snd (nodeIds e) \<in> set ids) es
       \<and> set (sectionEdges s) = {e \<in> set es. fst (nodeIds e) \<in> set ids \<and> snd (nodeIds e) \<in> set ids}
       \<and> set (sectionEdges s) \<subseteq> set es
       \<and> (\<forall>e. e \<in> set (sectionEdges s) \<longleftrightarrow>
             e \<in> set es \<and> fst (nodeIds e) \<in> withinHops es c (expansionDegrees s)
                        \<and> snd (nodeIds e) \<in> withinHops es c (expansionDegrees s))"
proof -
  note f = new_section_fields [OF s]
  have ids': "ids = sectionNodeIdsOf (getNodeEdgeMap es) c (expansionDegrees s)" by (simp add: ids f(1,2))
  have a: "sectionEdges s = filter (\<lambda>e. fst (nodeIds e) \<in> set ids \<and> snd (nodeIds e) \<in> set ids) es"
    unfolding ids' by (rule f(6))
  from sectionNodeIds_correct [of es c "expansionDegrees s"]
  have w: "set ids = withinHops es c (expansionDegrees s)" unfolding ids' by blast
  from a have b: "set (sectionEdges s) = {e \<in> set es. fst (nodeIds e) \<in> set ids \<and> snd (nodeIds e) \<in> set ids}"
    by simp
  then have c: "set (sectionEdges s) \<subseteq> set es" by blast
  from b w have d: "\<forall>e. e \<in> set (sectionEdges s) \<longleftrightarrow>
             e \<in> set es \<and> fst (nodeIds e) \<in> withinHops es c (expansionDegrees s)
                        \<and> snd (nodeIds e) \<in> withinHops es c (expansionDegrees s)" by simp
  from a b c d show ?thesis by blast
qed

theorem section_edges_closure_witness:
  "sectionEdges pathSection =
     [\<lparr>capacityMeshEdgeId = ''e01'', nodeIds = (''n0'', ''n1'')\<rparr>,
      \<lparr>capacityMeshEdgeId = ''e12'', nodeIds = (''n1'', ''n2'')\<rparr>]
   \<and> \<lparr>capacityMeshEdgeId = ''e23'', nodeIds = (''n2'', ''n3'')\<rparr> \<in> set pathEdges
   \<and> \<lparr>capacityMeshEdgeId = ''e23'', nodeIds = (''n2'', ''n3'')\<rparr> \<notin> set (sectionEdges pathSection)"
proof -
  note f = new_section_fields [OF pathSection_def]
  have ids: "sectionNodeIdsOf (nodeEdgeMap pathSection) (centerNodeId pathSection) (expansionDegrees pathSection)
     = [''n1'', ''n0'', ''n2'']"
    by (simp add: f(1,2) pathSection_radius pathSection_ids)
  from section_edges_closure [OF pathSection_def refl, unfolded ids]
  have "sectionEdges pathSection
      = filter (\<lambda>e. fst (nodeIds e) \<in> set [''n1'', ''n0'', ''n2''] \<and> snd (nodeIds e) \<in> set [''n1'', ''n0'', ''n2'']) pathEdges"
    by (elim conjE)
  then have "sectionEdges pathSection =
     [\<lparr>capacityMeshEdgeId = ''e01'', nodeIds = (''n0'', ''n1'')\<rparr>,
      \<lparr>capacityMeshEdgeId = ''e12'', nodeIds = (''n1'', ''n2'')\<rparr>]"
    by (simp add: pathEdges_def)
  then show ?thesis by (simp add: pathEdges_def)
qed

text \<open>
  C7. With a sub-solver in place, \<^verbatim>\<open>_step\<close> steps the sub-solver once and stores it.
  If the sub-solver is then solved the extractor is solved; if it is failed (and, as the
  contract has it, not solved) the extractor is failed and carries the sub-solver's error;
  otherwise the flags stay. Nothing else of the extractor changes: putting the old flags,
  error and sub-solver back gives the old state.
\<close>

theorem step_mirrors_subsolver:
  assumes sub: "activeSubSolver s = Some sub"
    and sub': "sub' = subStep sub"
    and s': "s' = CapacityPathingSingleSectionSolver_step subStep s"
  shows "activeSubSolver s' = Some sub'
       \<and> (solved sub' \<longrightarrow> solved s' \<and> failed s' = failed s \<and> error s' = error s)
       \<and> (\<not> solved sub' \<and> failed sub' \<longrightarrow> failed s' \<and> error s' = error sub' \<and> solved s' = solved s)
       \<and> (\<not> solved sub' \<and> \<not> failed sub' \<longrightarrow>
             solved s' = solved s \<and> failed s' = failed s \<and> error s' = error s)
       \<and> s'\<lparr>solved := solved s, failed := failed s, error := error s,
             activeSubSolver := activeSubSolver s\<rparr> = s"
  using sub unfolding s' sub'
  by (simp add: CapacityPathingSingleSectionSolver_step_def Let_def)

theorem step_mirrors_subsolver_witness:
  "activeSubSolver pathSection = Some idleSubSolver
   \<and> activeSubSolver (CapacityPathingSingleSectionSolver_step failingStep pathSection)
        = Some (failingStep idleSubSolver)
   \<and> failed (CapacityPathingSingleSectionSolver_step failingStep pathSection)
   \<and> error (CapacityPathingSingleSectionSolver_step failingStep pathSection) = Some ''no path found''
   \<and> \<not> solved (CapacityPathingSingleSectionSolver_step failingStep pathSection)
   \<and> solved (CapacityPathingSingleSectionSolver_step solvingStep pathSection)
   \<and> \<not> failed (CapacityPathingSingleSectionSolver_step solvingStep pathSection)"
proof -
  note f = new_section_fields [OF pathSection_def]
  have sub: "activeSubSolver pathSection = Some idleSubSolver"
    by (simp add: f(8) newIdleSubSolver_def)
  have fl: "\<not> solved (failingStep idleSubSolver)" "failed (failingStep idleSubSolver)"
    "error (failingStep idleSubSolver) = Some ''no path found''"
    by (simp_all add: failingStep_def idleSubSolver_def)
  have sl: "solved (solvingStep idleSubSolver)"
    by (simp add: solvingStep_def idleSubSolver_def)
  from step_mirrors_subsolver [OF sub refl refl, of failingStep] fl f(9)
  have a: "activeSubSolver (CapacityPathingSingleSectionSolver_step failingStep pathSection)
        = Some (failingStep idleSubSolver)
   \<and> failed (CapacityPathingSingleSectionSolver_step failingStep pathSection)
   \<and> error (CapacityPathingSingleSectionSolver_step failingStep pathSection) = Some ''no path found''
   \<and> \<not> solved (CapacityPathingSingleSectionSolver_step failingStep pathSection)"
    by simp
  from step_mirrors_subsolver [OF sub refl refl, of solvingStep] sl f(10)
  have b: "solved (CapacityPathingSingleSectionSolver_step solvingStep pathSection)
   \<and> \<not> failed (CapacityPathingSingleSectionSolver_step solvingStep pathSection)"
    by simp
  from sub a b show ?thesis by simp
qed

subsection \<open>Terminals\<close>

lemma findFirstInSection_char:
  "findFirstInSection ids p = (case inSection ids p of [] \<Rightarrow> None | v # _ \<Rightarrow> Some v)"
  by (induction p) (simp_all add: inSection_def)

lemma findLastInSection_take:
  "i \<le> length p \<Longrightarrow>
     findLastInSection ids p i =
       (if inSection ids (take i p) = [] then None else Some (last (inSection ids (take i p))))"
proof (induction i)
  case 0
  then show ?case by (simp add: inSection_def)
next
  case (Suc i)
  then have "take (Suc i) p = take i p @ [p ! i]" by (simp add: take_Suc_conv_app_nth)
  with Suc show ?case by (simp add: inSection_def Let_def)
qed

lemma findLastInSection_char:
  "findLastInSection ids p (length p) =
     (if inSection ids p = [] then None else Some (last (inSection ids p)))"
  using findLastInSection_take [of "length p" p ids] by simp

lemma computeTerminals_one: "computeTerminals ids [conn] [] = terminalOf ids conn"
proof (cases "path conn")
  case None
  then show ?thesis by (simp add: terminalOf_def)
next
  case (Some p)
  show ?thesis
  proof (cases "inSection ids p")
    case Nil
    with Some show ?thesis
      by (simp add: terminalOf_def findFirstInSection_char findLastInSection_char)
  next
    case (Cons v vs)
    with Some show ?thesis
      by (simp add: terminalOf_def findFirstInSection_char findLastInSection_char)
  qed
qed

lemma computeTerminals_step:
  "computeTerminals ids (conn # rest) acc = computeTerminals ids rest (acc @ terminalOf ids conn)"
proof (cases "path conn")
  case None
  then show ?thesis by (simp add: terminalOf_def)
next
  case (Some p)
  show ?thesis
  proof (cases "inSection ids p")
    case Nil
    with Some show ?thesis
      by (simp add: terminalOf_def findFirstInSection_char findLastInSection_char)
  next
    case (Cons v vs)
    with Some show ?thesis
      by (simp add: terminalOf_def findFirstInSection_char findLastInSection_char)
  qed
qed

lemma computeTerminals_char:
  "computeTerminals ids conns acc = acc @ concat (map (terminalOf ids) conns)"
proof (induction conns arbitrary: acc)
  case Nil
  then show ?case by simp
next
  case (Cons conn rest)
  show ?case unfolding computeTerminals_step Cons.IH by simp
qed

lemma inSection_ends:
  assumes "inSection ids p \<noteq> []"
  shows "hd (inSection ids p) \<in> set ids" "last (inSection ids p) \<in> set ids"
    "hd (inSection ids p) \<in> capacityMeshNodeId ` set p"
    "last (inSection ids p) \<in> capacityMeshNodeId ` set p"
proof -
  from assms have "hd (inSection ids p) \<in> set (inSection ids p)"
    and "last (inSection ids p) \<in> set (inSection ids p)" by simp_all
  then show "hd (inSection ids p) \<in> set ids" "last (inSection ids p) \<in> set ids"
    "hd (inSection ids p) \<in> capacityMeshNodeId ` set p"
    "last (inSection ids p) \<in> capacityMeshNodeId ` set p"
    unfolding inSection_def by auto
qed

lemma terminalOf_members:
  assumes "t \<in> set (terminalOf ids conn)"
  shows "startNodeId t \<in> set ids" "endNodeId t \<in> set ids" "startNodeId t \<noteq> []" "endNodeId t \<noteq> []"
proof -
  from assms obtain p where p: "path conn = Some p" "inSection ids p \<noteq> []"
    "hd (inSection ids p) \<noteq> []" "last (inSection ids p) \<noteq> []"
    "t = \<lparr>connectionName = connectionNameOf conn,
          startNodeId = hd (inSection ids p), endNodeId = last (inSection ids p)\<rparr>"
    by (cases "path conn") (auto simp: terminalOf_def split: if_splits)
  with inSection_ends [OF p(2)]
  show "startNodeId t \<in> set ids" "endNodeId t \<in> set ids" "startNodeId t \<noteq> []" "endNodeId t \<noteq> []"
    by simp_all
qed

text \<open>
  C5, as the code has it. With \<open>ids\<close> the section node identities of the constructed
  extractor: the forward scan of a path finds the first of its nodes in the section and the
  backward scan the last one (none when the path misses the section). The terminal list is
  the concatenation, in the order of the connections, of what each connection
  contributes: one record with the connection's name, that first node as start and that
  last node as end when the path meets the section and neither of the two identities is the
  empty string; nothing when the path has no node in the section. Start and end of every
  terminal are section node identities.
\<close>

theorem terminals_trimmed_to_section:
  assumes s: "s = newCapacityPathingSingleSectionSolver newSub c conns ns es hp"
    and ids: "ids = sectionNodeIdsOf (nodeEdgeMap s) (centerNodeId s) (expansionDegrees s)"
  shows "sectionConnectionTerminals s = concat (map (terminalOf ids) conns)
       \<and> (\<forall>p.
             findFirstInSection ids p = (if inSection ids p = [] then None else Some (hd (inSection ids p)))
             \<and> findLastInSection ids p (length p)
                 = (if inSection ids p = [] then None else Some (last (inSection ids p))))
       \<and> (\<forall>conn p. path conn = Some p \<and> inSection ids p \<noteq> []
               \<and> hd (inSection ids p) \<noteq> [] \<and> last (inSection ids p) \<noteq> [] \<longrightarrow>
             terminalOf ids conn =
               [\<lparr>connectionName = connectionNameOf conn,
                 startNodeId = hd (inSection ids p), endNodeId = last (inSection ids p)\<rparr>])
       \<and> (\<forall>conn p. path conn = Some p \<and> inSection ids p = [] \<longrightarrow> terminalOf ids conn = [])
       \<and> (\<forall>t\<in>set (sectionConnectionTerminals s). startNodeId t \<in> set ids \<and> endNodeId t \<in> set ids)"
proof -
  note f = new_section_fields [OF s]
  have ids': "ids = sectionNodeIdsOf (getNodeEdgeMap es) c (expansionDegrees s)" by (simp add: ids f(1,2))
  have a: "sectionConnectionTerminals s = concat (map (terminalOf ids) conns)"
    unfolding ids' f(7) by (simp add: computeTerminals_char)
  have b: "\<forall>p.
             findFirstInSection ids p = (if inSection ids p = [] then None else Some (hd (inSection ids p)))
             \<and> findLastInSection ids p (length p)
                 = (if inSection ids p = [] then None else Some (last (inSection ids p)))"
    by (auto simp: findFirstInSection_char findLastInSection_char split: list.splits)
  have c: "\<forall>conn p. path conn = Some p \<and> inSection ids p \<noteq> []
               \<and> hd (inSection ids p) \<noteq> [] \<and> last (inSection ids p) \<noteq> [] \<longrightarrow>
             terminalOf ids conn =
               [\<lparr>connectionName = connectionNameOf conn,
                 startNodeId = hd (inSection ids p), endNodeId = last (inSection ids p)\<rparr>]"
    by (simp add: terminalOf_def)
  have d: "\<forall>conn p. path conn = Some p \<and> inSection ids p = [] \<longrightarrow> terminalOf ids conn = []"
    by (simp add: terminalOf_def)
  have e: "\<forall>t\<in>set (sectionConnectionTerminals s). startNodeId t \<in> set ids \<and> endNodeId t \<in> set ids"
    unfolding a using terminalOf_members(1,2) by auto
  from a b c d e show ?thesis by blast
qed

lemma pathSection_terminals_ids:
  "sectionNodeIdsOf (nodeEdgeMap pathSection) (centerNodeId pathSection) (expansionDegrees pathSection)
     = [''n1'', ''n0'', ''n2'']"
  using new_section_fields(1,2) [OF pathSection_def] by (simp add: pathSection_radius pathSection_ids)

theorem terminals_trimmed_to_section_witness:
  "sectionConnectionTerminals pathSection =
     [\<lparr>connectionName = ''netA'', startNodeId = ''n0'', endNodeId = ''n2''\<rparr>]
   \<and> inSection [''n1'', ''n0'', ''n2''] pathNodes = [''n0'', ''n1'', ''n2'']
   \<and> inSection [''n1'', ''n0'', ''n2''] [meshNode ''n3''] = []"
proof -
  note th = terminals_trimmed_to_section [OF pathSection_def refl, unfolded pathSection_terminals_ids]
  from th have a: "sectionConnectionTerminals pathSection
      = concat (map (terminalOf [''n1'', ''n0'', ''n2'']) pathConnections)"
    by (elim conjE)
  have i1: "inSection [''n1'', ''n0'', ''n2''] pathNodes = [''n0'', ''n1'', ''n2'']"
    and i2: "inSection [''n1'', ''n0'', ''n2''] [meshNode ''n3''] = []"
    by (simp_all add: inSection_def pathNodes_def meshNode_def)
  have "concat (map (terminalOf [''n1'', ''n0'', ''n2'']) pathConnections)
      = [\<lparr>connectionName = ''netA'', startNodeId = ''n0'', endNodeId = ''n2''\<rparr>]"
    by (simp add: pathConnections_def terminalOf_def i1 i2)
  with a i1 i2 show ?thesis by simp
qed

lemma blankSection_ids:
  "sectionNodeIdsOf (nodeEdgeMap blankSection) (centerNodeId blankSection) (expansionDegrees blankSection)
     = ['''', ''n1'']"
proof -
  have m: "getNodeEdgeMap blankEdges = [('''', blankEdges), (''n1'', blankEdges)]"
    by (simp add: getNodeEdgeMap_def blankEdges_def addEdgeFor_def)
  have r: "expansionDegrees blankSection = 3"
    using new_section_fields(4) [OF blankSection_def] by simp
  have "sectionNodeIdsOf (getNodeEdgeMap blankEdges) [] 3 = ['''', ''n1'']"
    unfolding m
    by (simp add: sectionNodeIdsOf_def bfsLoop.simps neighborsOf_def blankEdges_def)
  with new_section_fields(1,2) [OF blankSection_def] r show ?thesis by simp
qed

lemma blankSection_terminals:
  "sectionConnectionTerminals blankSection =
     [\<lparr>connectionName = ''netD'', startNodeId = ''n1'', endNodeId = ''n1''\<rparr>]"
proof -
  have "sectionConnectionTerminals blankSection = computeTerminals ['''', ''n1''] blankConnections []"
    using new_section_fields(7) [OF blankSection_def] blankSection_ids
      new_section_fields(1,2) [OF blankSection_def] by simp
  also have "\<dots> = [\<lparr>connectionName = ''netD'', startNodeId = ''n1'', endNodeId = ''n1''\<rparr>]"
    by (simp add: blankConnections_def meshNode_def numeral_2_eq_2)
  finally show ?thesis .
qed

text \<open>
  C5, as the claim states it, fails where a found identity is the empty string. In the
  section around the focus \<open>''''\<close> with the edge to n1, the path of netA has its first
  node in the section (the focus) and its last one (n1): both exist, and netA gets no
  terminal. The only terminal is netD's.
\<close>

theorem empty_identity_counterexample:
  "sectionNodeIdsOf (nodeEdgeMap blankSection) (centerNodeId blankSection) (expansionDegrees blankSection)
     = ['''', ''n1'']
   \<and> path (blankConnections ! 0) = Some [meshNode '''', meshNode ''n1'']
   \<and> connectionNameOf (blankConnections ! 0) = ''netA''
   \<and> findFirstInSection ['''', ''n1''] [meshNode '''', meshNode ''n1''] = Some ''''
   \<and> findLastInSection ['''', ''n1''] [meshNode '''', meshNode ''n1''] 2 = Some ''n1''
   \<and> sectionConnectionTerminals blankSection =
        [\<lparr>connectionName = ''netD'', startNodeId = ''n1'', endNodeId = ''n1''\<rparr>]"
  by (simp add: blankSection_ids blankSection_terminals)
    (simp add: blankConnections_def meshNode_def numeral_2_eq_2)

text \<open>
  C9. The terminal list of the constructed extractor is made connection by connection, and
  no terminal in it has the empty string as start or end. A connection without a path
  contributes nothing. A connection whose forward scan or backward scan finds the empty
  string contributes nothing either, although the empty string is then a section node
  identity and the identity of a node of the path.
\<close>

theorem falsy_identity_no_terminal:
  assumes s: "s = newCapacityPathingSingleSectionSolver newSub c conns ns es hp"
    and ids: "ids = sectionNodeIdsOf (nodeEdgeMap s) (centerNodeId s) (expansionDegrees s)"
  shows "sectionConnectionTerminals s = concat (map (\<lambda>conn. computeTerminals ids [conn] []) conns)
       \<and> (\<forall>t\<in>set (sectionConnectionTerminals s). startNodeId t \<noteq> [] \<and> endNodeId t \<noteq> [])
       \<and> (\<forall>conn. path conn = None \<longrightarrow> computeTerminals ids [conn] [] = [])
       \<and> (\<forall>conn p. path conn = Some p
               \<and> (findFirstInSection ids p = Some [] \<or> findLastInSection ids p (length p) = Some []) \<longrightarrow>
             computeTerminals ids [conn] [] = []
             \<and> [] \<in> set ids \<and> [] \<in> capacityMeshNodeId ` set p)"
proof -
  note f = new_section_fields [OF s]
  have ids': "ids = sectionNodeIdsOf (getNodeEdgeMap es) c (expansionDegrees s)" by (simp add: ids f(1,2))
  have a: "sectionConnectionTerminals s = concat (map (\<lambda>conn. computeTerminals ids [conn] []) conns)"
    unfolding ids' f(7) by (simp add: computeTerminals_char computeTerminals_one)
  have b: "\<forall>t\<in>set (sectionConnectionTerminals s). startNodeId t \<noteq> [] \<and> endNodeId t \<noteq> []"
    unfolding a computeTerminals_one using terminalOf_members(3,4) by auto
  have c: "\<forall>conn. path conn = None \<longrightarrow> computeTerminals ids [conn] [] = []"
    by simp
  have d: "\<forall>conn p. path conn = Some p
               \<and> (findFirstInSection ids p = Some [] \<or> findLastInSection ids p (length p) = Some []) \<longrightarrow>
             computeTerminals ids [conn] [] = []
             \<and> [] \<in> set ids \<and> [] \<in> capacityMeshNodeId ` set p"
  proof (intro allI impI)
    fix conn :: ConnectionPathWithNodes and p
    assume h: "path conn = Some p
               \<and> (findFirstInSection ids p = Some [] \<or> findLastInSection ids p (length p) = Some [])"
    then have ne: "inSection ids p \<noteq> []"
      by (auto simp: findFirstInSection_char findLastInSection_char)
    with h have e: "hd (inSection ids p) = [] \<or> last (inSection ids p) = []"
      by (auto simp: findFirstInSection_char findLastInSection_char split: list.splits)
    with h have "terminalOf ids conn = []" by (auto simp: terminalOf_def)
    then have "computeTerminals ids [conn] [] = []" by (simp only: computeTerminals_one)
    moreover from e inSection_ends [OF ne] have "[] \<in> set ids" "[] \<in> capacityMeshNodeId ` set p"
      by metis+
    ultimately show "computeTerminals ids [conn] [] = []
             \<and> [] \<in> set ids \<and> [] \<in> capacityMeshNodeId ` set p" by simp
  qed
  from a b c d show ?thesis by blast
qed

theorem falsy_identity_no_terminal_witness:
  "findFirstInSection ['''', ''n1''] [meshNode '''', meshNode ''n1''] = Some ''''
   \<and> computeTerminals ['''', ''n1''] [blankConnections ! 0] [] = []
   \<and> findLastInSection ['''', ''n1''] [meshNode ''n1'', meshNode ''''] 2 = Some ''''
   \<and> computeTerminals ['''', ''n1''] [blankConnections ! 1] [] = []
   \<and> path (blankConnections ! 2) = None
   \<and> computeTerminals ['''', ''n1''] [blankConnections ! 2] [] = []
   \<and> '''' \<in> set ['''', ''n1'']"
proof -
  note th = falsy_identity_no_terminal [OF blankSection_def refl, unfolded blankSection_ids]
  from th have none: "\<forall>conn. path conn = None \<longrightarrow> computeTerminals ['''', ''n1''] [conn] [] = []"
    by (elim conjE)
  from th have falsy: "\<forall>conn p. path conn = Some p
               \<and> (findFirstInSection ['''', ''n1''] p = Some []
                   \<or> findLastInSection ['''', ''n1''] p (length p) = Some []) \<longrightarrow>
             computeTerminals ['''', ''n1''] [conn] [] = []
             \<and> [] \<in> set ['''', ''n1''] \<and> [] \<in> capacityMeshNodeId ` set p"
    by (elim conjE)
  have p0: "path (blankConnections ! 0) = Some [meshNode '''', meshNode ''n1'']"
    and p1: "path (blankConnections ! 1) = Some [meshNode ''n1'', meshNode '''']"
    and p2: "path (blankConnections ! 2) = None"
    by (simp_all add: blankConnections_def)
  have f0: "findFirstInSection ['''', ''n1''] [meshNode '''', meshNode ''n1''] = Some ''''"
    and l1: "findLastInSection ['''', ''n1''] [meshNode ''n1'', meshNode ''''] 2 = Some ''''"
    by (simp_all add: meshNode_def numeral_2_eq_2)
  from falsy [rule_format, of "blankConnections ! 0" "[meshNode '''', meshNode ''n1'']"] p0 f0
  have a: "computeTerminals ['''', ''n1''] [blankConnections ! 0] [] = []" by blast
  have l1': "findLastInSection ['''', ''n1''] [meshNode ''n1'', meshNode '''']
      (length [meshNode ''n1'', meshNode '''']) = Some ''''" by (simp add: meshNode_def)
  from falsy [rule_format, of "blankConnections ! 1" "[meshNode ''n1'', meshNode '''']"] p1 l1'
  have b: "computeTerminals ['''', ''n1''] [blankConnections ! 1] [] = []" by blast
  from none p2 have c: "computeTerminals ['''', ''n1''] [blankConnections ! 2] [] = []" by blast
  from f0 a l1 b p2 c show ?thesis by simp
qed

end
